theory Spec2Isabelle
  imports Main "HOL-Library.Multiset"
begin

section \<open>clidle: the guess evaluation of a filled grid row\<close>

text \<open>
  The game keeps words as fixed-size byte arrays (\<^verbatim>\<open>[_numChars]byte\<close>). A byte is a
  \<^typ>\<open>char\<close> here and an array a list whose length is the array's size. The zero
  byte, which the code writes over an answer letter it has used, is \<open>CHR 0x00\<close>.
\<close>

type_synonym byte = char

definition numGuesses :: nat where
  "numGuesses = 6"

definition numChars :: nat where
  "numChars = 5"

definition zeroByte :: byte where
  "zeroByte = CHR 0x00"

text \<open>
  \<^verbatim>\<open>keyState\<close> is an integer enumeration declared with \<^verbatim>\<open>iota\<close>; its order is the
  order of the integers.
\<close>

datatype keyState = keyStateUnselected | keyStateAbsent | keyStatePresent | keyStateCorrect

fun keyState_int :: "keyState \<Rightarrow> int" where
  "keyState_int keyStateUnselected = 0"
| "keyState_int keyStateAbsent = 1"
| "keyState_int keyStatePresent = 2"
| "keyState_int keyStateCorrect = 3"

text \<open>\<^verbatim>\<open>bytes.IndexByte\<close>: the index of the first occurrence, or \<open>-1\<close>.\<close>

fun IndexByte :: "byte list \<Rightarrow> byte \<Rightarrow> int" where
  "IndexByte [] c = - 1"
| "IndexByte (b # bs) c =
     (if b = c then 0
      else (let r = IndexByte bs c in if r = - 1 then - 1 else r + 1))"

text \<open>
  \<^verbatim>\<open>viewGridRowFilled\<close> computes the colour of each letter of a submitted row in three
  loops over the indices \<open>0 .. _numChars - 1\<close>. The state of the loops is the local
  array \<^verbatim>\<open>keyStates\<close> and the local copy \<^verbatim>\<open>letters\<close> of the answer.
\<close>

definition markCorrect ::
  "byte list \<Rightarrow> byte list \<Rightarrow> nat \<Rightarrow> keyState list \<times> byte list \<Rightarrow> keyState list \<times> byte list" where
  "markCorrect word answer i st =
     (case st of (ks, letters) \<Rightarrow>
        if word ! i = answer ! i
        then (ks[i := keyStateCorrect], letters[i := zeroByte])
        else (ks, letters))"

definition markPresent ::
  "byte list \<Rightarrow> nat \<Rightarrow> keyState list \<times> byte list \<Rightarrow> keyState list \<times> byte list" where
  "markPresent word i st =
     (case st of (ks, letters) \<Rightarrow>
        if ks ! i = keyStateCorrect then (ks, letters)
        else (let foundIdx = IndexByte letters (word ! i) in
              if foundIdx \<noteq> - 1
              then (ks[i := keyStatePresent], letters[nat foundIdx := zeroByte])
              else (ks, letters)))"

definition rowKeyStates :: "byte list \<Rightarrow> byte list \<Rightarrow> keyState list" where
  "rowKeyStates answer word =
     fst (fold (markPresent word) [0..<numChars]
            (fold (markCorrect word answer) [0..<numChars]
               (replicate numChars keyStateAbsent, answer)))"

text \<open>The number of positions of a row that carry byte \<open>c\<close> and are coloured green or yellow.\<close>

definition markedCount :: "byte list \<Rightarrow> keyState list \<Rightarrow> byte \<Rightarrow> nat" where
  "markedCount word ks c =
     length (filter (\<lambda>i. word ! i = c \<and> (ks ! i = keyStateCorrect \<or> ks ! i = keyStatePresent))
               [0..<numChars])"


subsection \<open>The evaluation as the specification words it\<close>

text \<open>
  The specification describes the same evaluation with an explicit record of the answer
  positions already consumed, instead of overwriting a copy of the answer: pass 1 marks
  every exact match \<open>Correct\<close> and consumes that answer position; pass 2 visits the
  remaining indices from left to right and marks an index \<open>Present\<close> when its letter
  occurs at an unconsumed answer position, consuming the first such position.
\<close>

fun firstUnconsumed :: "byte list \<Rightarrow> bool list \<Rightarrow> byte \<Rightarrow> nat option" where
  "firstUnconsumed (a # as) (u # us) c =
     (if \<not> u \<and> a = c then Some 0 else map_option Suc (firstUnconsumed as us c))"
| "firstUnconsumed _ _ c = None"

definition specPass1 ::
  "byte list \<Rightarrow> byte list \<Rightarrow> nat \<Rightarrow> keyState list \<times> bool list \<Rightarrow> keyState list \<times> bool list" where
  "specPass1 answer guess i st =
     (case st of (out, consumed) \<Rightarrow>
        if guess ! i = answer ! i
        then (out[i := keyStateCorrect], consumed[i := True])
        else (out, consumed))"

definition specPass2 ::
  "byte list \<Rightarrow> byte list \<Rightarrow> nat \<Rightarrow> keyState list \<times> bool list \<Rightarrow> keyState list \<times> bool list" where
  "specPass2 answer guess i st =
     (case st of (out, consumed) \<Rightarrow>
        if out ! i = keyStateCorrect then (out, consumed)
        else (case firstUnconsumed answer consumed (guess ! i) of
                Some j \<Rightarrow> (out[i := keyStatePresent], consumed[j := True])
              | None \<Rightarrow> (out, consumed)))"

definition Evaluate :: "byte list \<Rightarrow> byte list \<Rightarrow> keyState list" where
  "Evaluate answer guess =
     fst (fold (specPass2 answer guess) [0..<numChars]
            (fold (specPass1 answer guess) [0..<numChars]
               (replicate numChars keyStateAbsent, replicate numChars False)))"

subsection \<open>Auxiliary notions for the proofs about the evaluation\<close>

text \<open>
  The letters of the row that are coloured, position by position, with the zero byte at
  the positions that are not; and the invariants of the two passes. Each coloured letter
  has replaced one zero byte of this list and has been replaced by a zero byte in
  \<^verbatim>\<open>letters\<close>, so the two lists together always hold the answer's letters and
  \<open>numChars\<close> zero bytes.
\<close>

definition markedLetters :: "byte list \<Rightarrow> keyState list \<Rightarrow> byte list" where
  "markedLetters word ks =
     map (\<lambda>i. if ks ! i = keyStateCorrect \<or> ks ! i = keyStatePresent then word ! i else zeroByte)
       [0..<numChars]"

definition consumeInv :: "byte list \<Rightarrow> byte list \<Rightarrow> keyState list \<times> byte list \<Rightarrow> bool" where
  "consumeInv word answer st =
     (case st of (ks, letters) \<Rightarrow>
        length ks = numChars \<and> length letters = numChars \<and>
        mset (markedLetters word ks) + mset letters =
          mset answer + replicate_mset numChars zeroByte)"

definition pass1Inv :: "byte list \<Rightarrow> byte list \<Rightarrow> nat \<Rightarrow> keyState list \<times> byte list \<Rightarrow> bool" where
  "pass1Inv word answer k st =
     (case st of (ks, letters) \<Rightarrow>
        consumeInv word answer st \<and>
        (\<forall>j<numChars. k \<le> j \<longrightarrow> ks ! j = keyStateAbsent \<and> letters ! j = answer ! j) \<and>
        (\<forall>j<numChars. ks ! j \<noteq> keyStatePresent) \<and>
        (\<forall>j<numChars. j < k \<longrightarrow> (ks ! j = keyStateCorrect \<longleftrightarrow> word ! j = answer ! j)))"

definition pass2Inv :: "byte list \<Rightarrow> byte list \<Rightarrow> nat \<Rightarrow> keyState list \<times> byte list \<Rightarrow> bool" where
  "pass2Inv word answer k st =
     (case st of (ks, letters) \<Rightarrow>
        consumeInv word answer st \<and>
        (\<forall>j<numChars. k \<le> j \<longrightarrow> ks ! j \<noteq> keyStatePresent) \<and>
        (\<forall>j<numChars. ks ! j = keyStateCorrect \<longleftrightarrow> word ! j = answer ! j))"

text \<open>The code's \<^verbatim>\<open>letters\<close> array seen from the specification's consumed flags.\<close>

definition lettersOf :: "byte list \<Rightarrow> bool list \<Rightarrow> byte list" where
  "lettersOf answer consumed = map2 (\<lambda>a u. if u then zeroByte else a) answer consumed"

definition evalRel :: "byte list \<Rightarrow> keyState list \<times> byte list \<Rightarrow> keyState list \<times> bool list \<Rightarrow> bool" where
  "evalRel answer st sp =
     (case st of (ks, letters) \<Rightarrow> case sp of (out, consumed) \<Rightarrow>
        ks = out \<and> length consumed = length answer \<and> letters = lettersOf answer consumed)"


section \<open>The score ledger\<close>

text \<open>The store is the SQLite database behind the queries of \<^verbatim>\<open>query.sql\<close>.\<close>

text \<open>
  Modelled from the spec: the schema file is not among the sources. The tables are the
  two the queries name: \<open>game (id, answer)\<close> and \<open>guess (id, game_id, guess)\<close>, each kept
  in insertion order, with \<open>id\<close> an integer key that the database assigns, larger than
  every key in use and at least 1.
\<close>

datatype game = Game (game_id: int) (game_answer: string)

datatype guess = Guess (guess_id: int) (guess_game_id: int) (guess_guess: string)

text \<open>
  Every call into the store is recorded with its arguments and whether it succeeded, so
  that statements about which calls a session makes can be written down. A call fails
  when the database reports an error or the five-second deadline passes; whether it does
  is an input of the model.
\<close>

datatype storeCall =
    CreateGameCall string bool
  | CreateGuessCall int string bool
  | GetTotalScoreCall bool

datatype storeError = StoreError

record store =
  games :: "game list"
  guesses :: "guess list"
  calls :: "storeCall list"

definition nextId :: "int list \<Rightarrow> int" where
  "nextId ids = fold max ids 0 + 1"

text \<open>\<^verbatim>\<open>CreateGame\<close>: \<^verbatim>\<open>INSERT INTO game (answer) VALUES (?) RETURNING *\<close>.\<close>

definition CreateGame :: "bool \<Rightarrow> string \<Rightarrow> store \<Rightarrow> (storeError + game) \<times> store" where
  "CreateGame ok ans s =
     (if ok
      then (let g = Game (nextId (map game_id (games s))) ans
            in (Inr g, s\<lparr>games := games s @ [g], calls := calls s @ [CreateGameCall ans True]\<rparr>))
      else (Inl StoreError, s\<lparr>calls := calls s @ [CreateGameCall ans False]\<rparr>))"

text \<open>\<^verbatim>\<open>CreateGuess\<close>: \<^verbatim>\<open>INSERT INTO guess (game_id, guess) VALUES (?, ?) RETURNING *\<close>.\<close>

definition CreateGuess :: "bool \<Rightarrow> int \<Rightarrow> string \<Rightarrow> store \<Rightarrow> (storeError + guess) \<times> store" where
  "CreateGuess ok gid w s =
     (if ok
      then (let r = Guess (nextId (map guess_id (guesses s))) gid w
            in (Inr r, s\<lparr>guesses := guesses s @ [r], calls := calls s @ [CreateGuessCall gid w True]\<rparr>))
      else (Inl StoreError, s\<lparr>calls := calls s @ [CreateGuessCall gid w False]\<rparr>))"

text \<open>
  \<^verbatim>\<open>GetTotalScore\<close>. The rows of the double inner join are the triples of a game, a guess
  of that game equal to its answer (\<^verbatim>\<open>victory\<close>) and any guess of that game. They are
  grouped by the game's id; a group's score is \<open>10 * (11 - COUNT(guess.id))\<close>, the count
  being the number of rows of the group. \<^verbatim>\<open>SUM\<close> over no group at all is \<^verbatim>\<open>NULL\<close>.
\<close>

definition joinRows :: "store \<Rightarrow> (game \<times> guess \<times> guess) list" where
  "joinRows s =
     concat (map (\<lambda>g.
       concat (map (\<lambda>victory.
         map (\<lambda>gs. (g, victory, gs))
           (filter (\<lambda>gs. game_id g = guess_game_id gs) (guesses s)))
         (filter (\<lambda>victory. game_id g = guess_game_id victory \<and> game_answer g = guess_guess victory)
            (guesses s))))
       (games s))"

definition game_scores :: "store \<Rightarrow> (int \<times> int) list" where
  "game_scores s =
     map (\<lambda>i. (i, 10 * (11 - int (length (filter (\<lambda>(g, victory, gs). game_id g = i) (joinRows s))))))
       (remdups (map (\<lambda>(g, victory, gs). game_id g) (joinRows s)))"

definition sqlSum :: "int list \<Rightarrow> int option" where
  "sqlSum xs = (if xs = [] then None else Some (sum_list xs))"

definition GetTotalScore :: "bool \<Rightarrow> store \<Rightarrow> (storeError + int option) \<times> store" where
  "GetTotalScore ok s =
     (if ok
      then (Inr (sqlSum (map snd (game_scores s))), s\<lparr>calls := calls s @ [GetTotalScoreCall True]\<rparr>)
      else (Inl StoreError, s\<lparr>calls := calls s @ [GetTotalScoreCall False]\<rparr>))"

text \<open>
  The total score as the specification words it: for each game, count its guesses; the
  game is a win iff its last guess equals its answer; a win contributes
  \<open>100 - 10 * (count - 1)\<close> and any other game 0.
\<close>

definition guessesOf :: "store \<Rightarrow> game \<Rightarrow> string list" where
  "guessesOf s g = map guess_guess (filter (\<lambda>r. guess_game_id r = game_id g) (guesses s))"

definition gameContribution :: "store \<Rightarrow> game \<Rightarrow> int" where
  "gameContribution s g =
     (let gs = guessesOf s g in
      if gs \<noteq> [] \<and> last gs = game_answer g then 100 - 10 * (int (length gs) - 1) else 0)"

definition TotalScore :: "store \<Rightarrow> int" where
  "TotalScore s = sum_list (map (gameContribution s) (games s))"

text \<open>
  The ledgers on which the query and the specification's rule agree: game ids are
  distinct, and the answer of a game occurs among its guesses at most once and then as
  the last of them.
\<close>

definition answerOnlyLast :: "store \<Rightarrow> game \<Rightarrow> bool" where
  "answerOnlyLast s g = (game_answer g \<notin> set (butlast (guessesOf s g)))"

definition ledgerWellFormed :: "store \<Rightarrow> bool" where
  "ledgerWellFormed s =
     (distinct (map game_id (games s)) \<and> list_all (answerOnlyLast s) (games s))"

text \<open>The value the session reads from the query's nullable result (\<^verbatim>\<open>score.Float64\<close>).\<close>

definition scoreValue :: "int option \<Rightarrow> int" where
  "scoreValue r = (case r of None \<Rightarrow> 0 | Some v \<Rightarrow> v)"


text \<open>
  For the proofs about the query: the join rows of one game, the scores of a list of join
  rows, and the score of one game's group (0 when the game has no join row).
\<close>

definition rowsOf :: "store \<Rightarrow> game \<Rightarrow> (game \<times> guess \<times> guess) list" where
  "rowsOf s g =
       concat (map (\<lambda>victory.
         map (\<lambda>gs. (g, victory, gs))
           (filter (\<lambda>gs. game_id g = guess_game_id gs) (guesses s)))
         (filter (\<lambda>victory. game_id g = guess_game_id victory \<and> game_answer g = guess_guess victory)
            (guesses s)))"

definition scoresOf :: "(game \<times> guess \<times> guess) list \<Rightarrow> (int \<times> int) list" where
  "scoresOf rows =
     map (\<lambda>i. (i, 10 * (11 - int (length (filter (\<lambda>(g, victory, gs). game_id g = i) rows)))))
       (remdups (map (\<lambda>(g, victory, gs). game_id g) rows))"

definition groupScore :: "store \<Rightarrow> game \<Rightarrow> int" where
  "groupScore s g = (if rowsOf s g = [] then 0 else 10 * (11 - int (length (rowsOf s g))))"


section \<open>The game session\<close>

text \<open>
  One session is one \<^verbatim>\<open>model\<close> driven by the messages of the terminal framework. The
  integers of the model are Go's 64-bit \<^verbatim>\<open>int\<close>; the cursor stays within the grid and the
  other counters move by one per message, so they are modelled as unbounded integers.
  A runtime panic (an array index out of range) is a value of the type \<open>panic\<close>.

  The dictionary is not among the sources: its test \<^verbatim>\<open>IsWord\<close> is a parameter and the word
  that \<^verbatim>\<open>GetRandomCommonWord\<close> draws is an input of each step, as is the outcome of each
  call into the store.
\<close>

datatype panic = IndexOutOfRange | GuessesOutOfRange

text \<open>
  The commands a step hands back to the framework: \<^verbatim>\<open>tea.Quit\<close>, and \<^verbatim>\<open>tea.Tick\<close> with its
  duration in seconds, which later delivers \<^verbatim>\<open>msgResetStatus\<close>.
\<close>

datatype cmd = Quit | Tick nat

datatype keyType = KeyCtrlC | KeyCtrlR | KeyBackspace | KeyEnter | KeyRunes | KeyOther

datatype msg = msgResetStatus | KeyMsg keyType "int list" | WindowSizeMsg int int | OtherMsg

record model =
  gameID :: int
  gameOver :: bool
  score :: int
  answer :: "byte list"
  status :: string
  statusPending :: int
  windowHeight :: int
  windowWidth :: int
  grid :: "byte list list"
  gridRow :: int
  gridCol :: int
  keyStates :: "byte \<rightharpoonup> keyState"

record io =
  randomWord :: string
  createGameOk :: bool
  createGuessOk :: bool
  getTotalScoreOk :: bool

text \<open>Decimal digits, for \<^verbatim>\<open>fmt.Sprintf("Score: %d", m.score)\<close>.\<close>

definition digit :: "nat \<Rightarrow> char" where
  "digit n = char_of (48 + n)"

function string_of_nat :: "nat \<Rightarrow> string" where
  "string_of_nat n =
     (if n < 10 then [digit n] else string_of_nat (n div 10) @ [digit (n mod 10)])"
  by pat_completeness auto
termination
  by (relation "measure id") auto

declare string_of_nat.simps [simp del]

definition string_of_int :: "int \<Rightarrow> string" where
  "string_of_int i =
     (if i < 0 then CHR ''-'' # string_of_nat (nat (- i)) else string_of_nat (nat i))"

text \<open>A read of the key-state map; a key that is not in a Go map reads as the zero value.\<close>

definition keyStateOf :: "(byte \<rightharpoonup> keyState) \<Rightarrow> byte \<Rightarrow> keyState" where
  "keyStateOf ks key = (case ks key of None \<Rightarrow> keyStateUnselected | Some st \<Rightarrow> st)"

definition maxKeyState :: "keyState \<Rightarrow> keyState \<Rightarrow> keyState" where
  "maxKeyState a b = (if keyState_int a < keyState_int b then b else a)"

text \<open>\<^verbatim>\<open>copy(dst, src)\<close> on a fixed-size destination.\<close>

definition copyBytes :: "byte list \<Rightarrow> byte list \<Rightarrow> byte list" where
  "copyBytes dst src = take (length dst) src @ drop (length src) dst"

definition isAsciiUpper :: "int \<Rightarrow> bool" where
  "isAsciiUpper r = (65 \<le> r \<and> r \<le> 90)"

definition toAsciiUpper :: "int \<Rightarrow> int" where
  "toAsciiUpper r = (if 97 \<le> r \<and> r \<le> 122 then r - (97 - 65) else r)"

definition newModel :: model where
  "newModel =
     \<lparr>gameID = 0, gameOver = False, score = 0, answer = replicate numChars zeroByte,
      status = [], statusPending = 0, windowHeight = 0, windowWidth = 0,
      grid = replicate numGuesses (replicate numChars zeroByte), gridRow = 0, gridCol = 0,
      keyStates = Map.empty\<rparr>"

definition resetStatus :: "model \<Rightarrow> model" where
  "resetStatus m = m\<lparr>status := ''Score: '' @ string_of_int (score m)\<rparr>"

definition setStatus :: "string \<Rightarrow> nat \<Rightarrow> model \<Rightarrow> model \<times> cmd option" where
  "setStatus text duration m =
     (if duration > 0
      then (m\<lparr>status := text, statusPending := statusPending m + 1\<rparr>, Some (Tick duration))
      else (m\<lparr>status := text\<rparr>, None))"

definition updateScore :: "io \<Rightarrow> model \<times> store \<Rightarrow> model \<times> store" where
  "updateScore e ms =
     (case ms of (m, s) \<Rightarrow>
        (case GetTotalScore (getTotalScoreOk e) s of
           (Inl err, s') \<Rightarrow> (m, s')
         | (Inr r, s') \<Rightarrow> (m\<lparr>score := scoreValue r\<rparr>, s')))"

definition saveGuess :: "io \<Rightarrow> string \<Rightarrow> model \<times> store \<Rightarrow> storeError option \<times> model \<times> store" where
  "saveGuess e w ms =
     (case ms of (m, s) \<Rightarrow>
        let created =
              (if gameID m = 0
               then (case CreateGame (createGameOk e) (answer m) s of
                       (Inl err, s1) \<Rightarrow> Inl (err, s1)
                     | (Inr g, s1) \<Rightarrow> Inr (m\<lparr>gameID := game_id g\<rparr>, s1))
               else Inr (m, s))
        in (case created of
              Inl (err, s1) \<Rightarrow> (Some err, m, s1)
            | Inr (m1, s1) \<Rightarrow>
                (case CreateGuess (createGuessOk e) (gameID m1) w s1 of
                   (Inl err, s2) \<Rightarrow> (Some err, m1, s2)
                 | (Inr r, s2) \<Rightarrow> (None, m1, s2))))"

definition doWin :: "io \<Rightarrow> model \<times> store \<Rightarrow> (model \<times> store) \<times> cmd option" where
  "doWin e ms =
     (case updateScore e (fst ms\<lparr>gameOver := True\<rparr>, snd ms) of
        (m1, s1) \<Rightarrow> (case setStatus ''You win!'' 0 m1 of (m2, c) \<Rightarrow> ((m2, s1), c)))"

definition doLoss :: "io \<Rightarrow> model \<times> store \<Rightarrow> (model \<times> store) \<times> cmd option" where
  "doLoss e ms =
     (case updateScore e (fst ms\<lparr>gameOver := True\<rparr>, snd ms) of
        (m1, s1) \<Rightarrow>
          (case setStatus (''The word was '' @ answer m1 @ ''. Better luck next time!'') 0 m1 of
             (m2, c) \<Rightarrow> ((m2, s1), c)))"

definition doRestart :: "io \<Rightarrow> model \<times> store \<Rightarrow> model \<times> store" where
  "doRestart e ms =
     (case ms of (m, s) \<Rightarrow>
        let m1 = m\<lparr>gameID := 0, gameOver := False,
                   answer := copyBytes (answer m) (randomWord e),
                   gridCol := 0, gridRow := 0, keyStates := Map.empty\<rparr>
        in case updateScore e (m1, s) of (m2, s') \<Rightarrow> (resetStatus m2, s'))"

text \<open>The loop of \<^verbatim>\<open>doAcceptGuess\<close> over the letters of the guess: one step, for index \<open>idx\<close>.\<close>

definition acceptKey ::
  "byte list \<Rightarrow> byte list \<Rightarrow> nat \<Rightarrow> bool \<times> (byte \<rightharpoonup> keyState) \<Rightarrow> bool \<times> (byte \<rightharpoonup> keyState)" where
  "acceptKey ans guess idx st =
     (case st of (success, ks) \<Rightarrow>
        let key = guess ! idx;
            r = (if key = ans ! idx then (keyStateCorrect, success)
                 else (if IndexByte ans key \<noteq> - 1 then keyStatePresent else keyStateAbsent, False))
        in (snd r, ks(key \<mapsto> maxKeyState (fst r) (keyStateOf ks key))))"

definition doAcceptGuess ::
  "(string \<Rightarrow> bool) \<Rightarrow> io \<Rightarrow> model \<times> store \<Rightarrow> panic + (model \<times> store) \<times> cmd option" where
  "doAcceptGuess IsWord e ms =
     (case ms of (m, s) \<Rightarrow>
        if gameOver m then Inr ((m, s), None)
        else if gridCol m \<noteq> int numChars
        then (case setStatus ''Your guess must be a 5-letter word.'' 1 m of
                (m', c) \<Rightarrow> Inr ((m', s), c))
        else if \<not> (0 \<le> gridRow m \<and> gridRow m < int numGuesses) then Inl IndexOutOfRange
        else
          let guess = grid m ! nat (gridRow m) in
          if \<not> IsWord guess
          then (case setStatus ''That's not a valid word.'' 1 m of
                  (m', c) \<Rightarrow> Inr ((m', s), c))
          else
            (case saveGuess e guess (m, s) of
               (err, m1, s1) \<Rightarrow>
                 (case fold (acceptKey (answer m1) guess) [0..<numChars] (True, keyStates m1) of
                    (success, ks) \<Rightarrow>
                      let m2 = m1\<lparr>keyStates := ks, gridRow := gridRow m1 + 1, gridCol := 0\<rparr>
                      in if success then Inr (doWin e (m2, s1))
                         else if gridRow m2 = int numGuesses then Inr (doLoss e (m2, s1))
                         else Inr ((m2, s1), None))))"

definition doAcceptChar :: "int \<Rightarrow> model \<Rightarrow> panic + model" where
  "doAcceptChar ch m =
     (if gameOver m \<or> \<not> (gridRow m < int numGuesses \<and> gridCol m < int numChars) then Inr m
      else if isAsciiUpper (toAsciiUpper ch)
      then (if 0 \<le> gridRow m \<and> 0 \<le> gridCol m
            then Inr (m\<lparr>grid := (grid m)[nat (gridRow m) :=
                                  (grid m ! nat (gridRow m))[nat (gridCol m) := char_of (toAsciiUpper ch)]],
                        gridCol := gridCol m + 1\<rparr>)
            else Inl IndexOutOfRange)
      else Inr m)"

definition doDeleteChar :: "model \<Rightarrow> model" where
  "doDeleteChar m = (if \<not> gameOver m \<and> gridCol m > 0 then m\<lparr>gridCol := gridCol m - 1\<rparr> else m)"

definition doResize :: "int \<Rightarrow> int \<Rightarrow> model \<Rightarrow> model" where
  "doResize width height m = m\<lparr>windowHeight := height, windowWidth := width\<rparr>"

definition Init :: "io \<Rightarrow> model \<times> store \<Rightarrow> model \<times> store" where
  "Init e ms = doRestart e ms"

definition Update ::
  "(string \<Rightarrow> bool) \<Rightarrow> io \<Rightarrow> msg \<Rightarrow> model \<times> store \<Rightarrow> panic + (model \<times> store) \<times> cmd option" where
  "Update IsWord e ev ms =
     (case ms of (m, s) \<Rightarrow>
        (case ev of
           msgResetStatus \<Rightarrow>
             (let m1 = m\<lparr>statusPending := statusPending m - 1\<rparr>
              in Inr ((if statusPending m1 = 0 then resetStatus m1 else m1, s), None))
         | KeyMsg k runes \<Rightarrow>
             (let m1 = resetStatus m in
              (case k of
                 KeyCtrlC \<Rightarrow> Inr ((m1, s), Some Quit)
               | KeyCtrlR \<Rightarrow> Inr (doRestart e (m1, s), None)
               | KeyBackspace \<Rightarrow> Inr ((doDeleteChar m1, s), None)
               | KeyEnter \<Rightarrow>
                   (if gameOver m1 then Inr (doRestart e (m1, s), None)
                    else doAcceptGuess IsWord e (m1, s))
               | KeyRunes \<Rightarrow>
                   (if length runes = 1
                    then (case doAcceptChar (runes ! 0) m1 of
                            Inl p \<Rightarrow> Inl p
                          | Inr m2 \<Rightarrow> Inr ((m2, s), None))
                    else Inr ((m1, s), None))
               | KeyOther \<Rightarrow> Inr ((m1, s), None)))
         | WindowSizeMsg width height \<Rightarrow> Inr ((doResize width height m, s), None)
         | OtherMsg \<Rightarrow> Inr ((m, s), None)))"

text \<open>A session processes its messages one at a time; a panic ends it.\<close>

fun runSession ::
  "(string \<Rightarrow> bool) \<Rightarrow> (io \<times> msg) list \<Rightarrow> model \<times> store \<Rightarrow> panic + model \<times> store" where
  "runSession IsWord [] ms = Inr ms"
| "runSession IsWord (step # steps) ms =
     (case Update IsWord (fst step) (snd step) ms of
        Inl p \<Rightarrow> Inl p
      | Inr (ms', c) \<Rightarrow> runSession IsWord steps ms')"

subsection \<open>The grid as it is shown\<close>

text \<open>
  \<^verbatim>\<open>viewKey\<close> draws a bordered key; what matters of it here is its text and its colour.
  A row is the list of its keys and the grid the list of its rows.
\<close>

datatype color = colorPrimary | colorSecondary | colorSeparator | colorYellow | colorGreen








section \<open>The earlier generation of the session, with its statistics file\<close>

text \<open>
  The sources also hold the session as it was before the SQL store: the statistics are
  the array \<^verbatim>\<open>Guesses\<close> of a JSON file, read and written around every update by
  \<^verbatim>\<open>withDb\<close>. Names that the two generations share carry the suffix \<open>_v1\<close> here.
  The word list is not among the sources: \<^verbatim>\<open>isWord\<close> is a parameter and the word drawn
  by \<^verbatim>\<open>getWord\<close> an input of each step, as is whether reading and writing the file work.
\<close>

type_synonym db = "int list"

definition emptyDb :: db where
  "emptyDb = replicate (numGuesses + 1) 0"

definition addWin :: "int \<Rightarrow> db \<Rightarrow> panic + db" where
  "addWin n d =
     (if \<not> (1 \<le> n \<and> n \<le> int numGuesses) then Inl GuessesOutOfRange
      else Inr (d[nat n := d ! nat n + 1]))"

definition addLoss :: "db \<Rightarrow> db" where
  "addLoss d = d[0 := d ! 0 + 1]"

text \<open>\<^verbatim>\<open>db.score\<close>: the loop over \<^verbatim>\<open>db.Guesses[1:]\<close> with its index \<open>i\<close>.\<close>

definition db_score :: "db \<Rightarrow> int" where
  "db_score d =
     fold (\<lambda>i sc. sc + (100 - 10 * int i) * (drop 1 d ! i)) [0..<length (drop 1 d)] 0"

text \<open>The statistics after wins with the given numbers of guesses, recorded in order.\<close>

fun recordWins :: "int list \<Rightarrow> db \<Rightarrow> panic + db" where
  "recordWins [] d = Inr d"
| "recordWins (k # ks) d = (case addWin k d of Inl p \<Rightarrow> Inl p | Inr d' \<Rightarrow> recordWins ks d')"

record model_v1 =
  score_v1 :: int
  word_v1 :: "byte list"
  gameOver_v1 :: bool
  errors_v1 :: "string list"
  keyStates_v1 :: "byte \<rightharpoonup> keyState"
  status_v1 :: string
  statusPending_v1 :: int
  height_v1 :: int
  width_v1 :: int
  grid_v1 :: "byte list list"
  gridRow_v1 :: int
  gridCol_v1 :: int

record io_v1 =
  getWord :: string
  loadOk :: bool
  saveOk :: bool

definition newModel_v1 :: "int \<Rightarrow> int \<Rightarrow> model_v1" where
  "newModel_v1 width height =
     \<lparr>score_v1 = 0, word_v1 = replicate numChars zeroByte, gameOver_v1 = False, errors_v1 = [],
      keyStates_v1 = Map.empty, status_v1 = [], statusPending_v1 = 0,
      height_v1 = height, width_v1 = width,
      grid_v1 = replicate numGuesses (replicate numChars zeroByte),
      gridRow_v1 = 0, gridCol_v1 = 0\<rparr>"

definition resetStatus_v1 :: "model_v1 \<Rightarrow> model_v1" where
  "resetStatus_v1 m = m\<lparr>status_v1 := ''Score: '' @ string_of_int (score_v1 m)\<rparr>"

definition setStatus_v1 :: "string \<Rightarrow> nat \<Rightarrow> model_v1 \<Rightarrow> model_v1 \<times> cmd option" where
  "setStatus_v1 text duration m =
     (if duration > 0
      then (m\<lparr>status_v1 := text, statusPending_v1 := statusPending_v1 m + 1\<rparr>, Some (Tick duration))
      else (m\<lparr>status_v1 := text\<rparr>, None))"

definition reportError :: "string \<Rightarrow> string \<Rightarrow> model_v1 \<Rightarrow> model_v1 \<times> cmd option" where
  "reportError err text m = setStatus_v1 text 3 (m\<lparr>errors_v1 := errors_v1 m @ [err]\<rparr>)"

text \<open>
  \<^verbatim>\<open>withDb\<close>: the file is \<open>None\<close> while it does not exist, and \<^verbatim>\<open>loadDb\<close> then yields
  the zero statistics. The function \<open>f\<close> works on the loaded statistics and the model.
\<close>

definition withDb ::
  "io_v1 \<Rightarrow> (db \<times> model_v1 \<Rightarrow> panic + db \<times> model_v1) \<Rightarrow> model_v1 \<times> db option \<Rightarrow>
     panic + (model_v1 \<times> db option) \<times> cmd option" where
  "withDb e f ms =
     (case ms of (m, file) \<Rightarrow>
        if \<not> loadOk e
        then (case reportError ''could not read from database'' ''Error loading database.'' m of
                (m', c) \<Rightarrow> Inr ((m', file), c))
        else (case f (case file of None \<Rightarrow> emptyDb | Some d \<Rightarrow> d, m) of
                Inl p \<Rightarrow> Inl p
              | Inr (d', m1) \<Rightarrow>
                  if saveOk e then Inr ((m1, Some d'), None)
                  else (case reportError ''could not write to database'' ''Error saving database.'' m1 of
                          (m', c) \<Rightarrow> Inr ((m', file), c))))"

definition reset :: "io_v1 \<Rightarrow> model_v1 \<Rightarrow> model_v1" where
  "reset e m =
     resetStatus_v1
       (m\<lparr>gameOver_v1 := False, gridCol_v1 := 0, gridRow_v1 := 0, keyStates_v1 := Map.empty,
          word_v1 := copyBytes (word_v1 m) (getWord e)\<rparr>)"

definition Init_v1 ::
  "io_v1 \<Rightarrow> model_v1 \<times> db option \<Rightarrow> panic + (model_v1 \<times> db option) \<times> cmd option" where
  "Init_v1 e ms =
     withDb e (\<lambda>(d, m). Inr (d, reset e (m\<lparr>score_v1 := db_score d\<rparr>)))
       (fst ms\<lparr>keyStates_v1 := Map.empty\<rparr>, snd ms)"

text \<open>\<^verbatim>\<open>tea.Sequentially\<close> runs its commands in order up to the first that yields a message.\<close>

definition Sequentially :: "cmd option list \<Rightarrow> cmd option" where
  "Sequentially cs = (case filter (\<lambda>c. c \<noteq> None) cs of [] \<Rightarrow> None | c # rest \<Rightarrow> c)"

definition doWin_v1 ::
  "io_v1 \<Rightarrow> model_v1 \<times> db option \<Rightarrow> panic + (model_v1 \<times> db option) \<times> cmd option" where
  "doWin_v1 e ms =
     (case withDb e
             (\<lambda>(d, m). case addWin (gridRow_v1 m) d of
                          Inl p \<Rightarrow> Inl p
                        | Inr d' \<Rightarrow> Inr (d', m\<lparr>score_v1 := db_score d'\<rparr>))
             (fst ms\<lparr>gameOver_v1 := True\<rparr>, snd ms) of
        Inl p \<Rightarrow> Inl p
      | Inr ((m1, file), c1) \<Rightarrow>
          (case setStatus_v1 ''You win!'' 0 m1 of
             (m2, c2) \<Rightarrow> Inr ((m2, file), Sequentially [c1, c2])))"

definition doLoss_v1 ::
  "io_v1 \<Rightarrow> model_v1 \<times> db option \<Rightarrow> panic + (model_v1 \<times> db option) \<times> cmd option" where
  "doLoss_v1 e ms =
     (let text = ''The word was '' @ word_v1 (fst ms) @ ''. Better luck next time!'' in
      case withDb e (\<lambda>(d, m). Inr (addLoss d, m\<lparr>score_v1 := db_score (addLoss d)\<rparr>))
             (fst ms\<lparr>gameOver_v1 := True\<rparr>, snd ms) of
        Inl p \<Rightarrow> Inl p
      | Inr ((m1, file), c1) \<Rightarrow>
          (case setStatus_v1 text 0 m1 of
             (m2, c2) \<Rightarrow> Inr ((m2, file), Sequentially [c1, c2])))"

definition acceptKey_v1 ::
  "byte list \<Rightarrow> byte list \<Rightarrow> nat \<Rightarrow> bool \<times> (byte \<rightharpoonup> keyState) \<Rightarrow> bool \<times> (byte \<rightharpoonup> keyState)" where
  "acceptKey_v1 ans word i st =
     (case st of (success, ks) \<Rightarrow>
        let key = word ! i;
            r = (if key = ans ! i then (keyStateCorrect, success)
                 else (if IndexByte ans key \<noteq> - 1 then keyStatePresent else keyStateAbsent, False))
        in (snd r, if keyState_int (keyStateOf ks key) < keyState_int (fst r)
                   then ks(key \<mapsto> fst r) else ks))"

definition doAcceptWord ::
  "(string \<Rightarrow> bool) \<Rightarrow> io_v1 \<Rightarrow> model_v1 \<times> db option \<Rightarrow>
     panic + (model_v1 \<times> db option) \<times> cmd option" where
  "doAcceptWord isWord e ms =
     (case ms of (m, file) \<Rightarrow>
        if gameOver_v1 m then Inr ((m, file), None)
        else if gridCol_v1 m \<noteq> int numChars
        then (case setStatus_v1 ''Your guess must be a 5-letter word.'' 1 m of
                (m', c) \<Rightarrow> Inr ((m', file), c))
        else if \<not> (0 \<le> gridRow_v1 m \<and> gridRow_v1 m < int numGuesses) then Inl IndexOutOfRange
        else
          let word = grid_v1 m ! nat (gridRow_v1 m) in
          if \<not> isWord word
          then (case setStatus_v1 ''That's not a valid word.'' 1 m of
                  (m', c) \<Rightarrow> Inr ((m', file), c))
          else
            (case fold (acceptKey_v1 (word_v1 m) word) [0..<numChars] (True, keyStates_v1 m) of
               (success, ks) \<Rightarrow>
                 let m2 = m\<lparr>keyStates_v1 := ks, gridRow_v1 := gridRow_v1 m + 1, gridCol_v1 := 0\<rparr>
                 in if success then doWin_v1 e (m2, file)
                    else if gridRow_v1 m2 = int numGuesses then doLoss_v1 e (m2, file)
                    else Inr ((m2, file), None)))"

definition doAcceptChar_v1 :: "int \<Rightarrow> model_v1 \<Rightarrow> panic + model_v1" where
  "doAcceptChar_v1 ch m =
     (if gameOver_v1 m \<or> \<not> (gridRow_v1 m < int numGuesses \<and> gridCol_v1 m < int numChars) then Inr m
      else if isAsciiUpper (toAsciiUpper ch)
      then (if 0 \<le> gridRow_v1 m \<and> 0 \<le> gridCol_v1 m
            then Inr (m\<lparr>grid_v1 := (grid_v1 m)[nat (gridRow_v1 m) :=
                          (grid_v1 m ! nat (gridRow_v1 m))[nat (gridCol_v1 m) := char_of (toAsciiUpper ch)]],
                        gridCol_v1 := gridCol_v1 m + 1\<rparr>)
            else Inl IndexOutOfRange)
      else Inr m)"

definition doDeleteChar_v1 :: "model_v1 \<Rightarrow> model_v1" where
  "doDeleteChar_v1 m =
     (if \<not> gameOver_v1 m \<and> gridCol_v1 m > 0 then m\<lparr>gridCol_v1 := gridCol_v1 m - 1\<rparr> else m)"

definition doResize_v1 :: "int \<Rightarrow> int \<Rightarrow> model_v1 \<Rightarrow> model_v1" where
  "doResize_v1 width height m = m\<lparr>height_v1 := height, width_v1 := width\<rparr>"

definition Update_v1 ::
  "(string \<Rightarrow> bool) \<Rightarrow> io_v1 \<Rightarrow> msg \<Rightarrow> model_v1 \<times> db option \<Rightarrow>
     panic + (model_v1 \<times> db option) \<times> cmd option" where
  "Update_v1 isWord e ev ms =
     (case ms of (m, file) \<Rightarrow>
        (case ev of
           msgResetStatus \<Rightarrow>
             (let m1 = m\<lparr>statusPending_v1 := statusPending_v1 m - 1\<rparr>
              in Inr ((if statusPending_v1 m1 = 0 then resetStatus_v1 m1 else m1, file), None))
         | KeyMsg k runes \<Rightarrow>
             (let m1 = resetStatus_v1 m in
              (case k of
                 KeyCtrlC \<Rightarrow> Inr ((m1, file), Some Quit)
               | KeyCtrlR \<Rightarrow> Inr ((reset e m1, file), None)
               | KeyBackspace \<Rightarrow> Inr ((doDeleteChar_v1 m1, file), None)
               | KeyEnter \<Rightarrow>
                   (if gameOver_v1 m1 then Inr ((reset e m1, file), None)
                    else doAcceptWord isWord e (m1, file))
               | KeyRunes \<Rightarrow>
                   (if length runes = 1
                    then (case doAcceptChar_v1 (runes ! 0) m1 of
                            Inl p \<Rightarrow> Inl p
                          | Inr m2 \<Rightarrow> Inr ((m2, file), None))
                    else Inr ((m1, file), None))
               | KeyOther \<Rightarrow> Inr ((m1, file), None)))
         | WindowSizeMsg width height \<Rightarrow> Inr ((doResize_v1 width height m, file), None)
         | OtherMsg \<Rightarrow> Inr ((m, file), None)))"

fun runSession_v1 ::
  "(string \<Rightarrow> bool) \<Rightarrow> (io_v1 \<times> msg) list \<Rightarrow> model_v1 \<times> db option \<Rightarrow>
     panic + model_v1 \<times> db option" where
  "runSession_v1 isWord [] ms = Inr ms"
| "runSession_v1 isWord (step # steps) ms =
     (case Update_v1 isWord (fst step) (snd step) ms of
        Inl p \<Rightarrow> Inl p
      | Inr (ms', c) \<Rightarrow> runSession_v1 isWord steps ms')"


section \<open>Notions used to state the properties\<close>

text \<open>The fixed sizes of the arrays of a model, which the lists of the embedding must have.\<close>

definition arraysOk :: "model \<Rightarrow> bool" where
  "arraysOk m =
     (length (answer m) = numChars \<and> length (grid m) = numGuesses \<and>
      list_all (\<lambda>row. length row = numChars) (grid m))"

text \<open>The cursor invariant of a session, for both generations.\<close>

definition cursorOk :: "bool \<Rightarrow> int \<Rightarrow> int \<Rightarrow> bool" where
  "cursorOk over row col =
     (0 \<le> col \<and> col \<le> int numChars \<and> 0 \<le> row \<and> row \<le> int numGuesses \<and>
      (over \<or> row < int numGuesses) \<and> (1 \<le> row \<or> \<not> over))"

definition cursorInv :: "model \<Rightarrow> bool" where
  "cursorInv m = cursorOk (gameOver m) (gridRow m) (gridCol m)"

definition cursorInv_v1 :: "model_v1 \<Rightarrow> bool" where
  "cursorInv_v1 m = cursorOk (gameOver_v1 m) (gridRow_v1 m) (gridCol_v1 m)"

definition arraysOk_v1 :: "model_v1 \<Rightarrow> bool" where
  "arraysOk_v1 m =
     (length (word_v1 m) = numChars \<and> length (grid_v1 m) = numGuesses \<and>
      list_all (\<lambda>row. length row = numChars) (grid_v1 m))"

text \<open>The invariant of a session: the cursor invariant and the sizes of the arrays.\<close>

definition sessionInv :: "model \<Rightarrow> bool" where
  "sessionInv m = (cursorInv m \<and> arraysOk m)"

definition sessionInv_v1 :: "model_v1 \<Rightarrow> bool" where
  "sessionInv_v1 m = (cursorInv_v1 m \<and> arraysOk_v1 m)"

text \<open>
  Transient statuses and their timers: \<open>Schedule text d\<close> is a call
  \<^verbatim>\<open>setStatus(text, d)\<close> and \<open>TimerFired\<close> the delivery of \<^verbatim>\<open>msgResetStatus\<close>.
\<close>

datatype statusEvent = Schedule string nat | TimerFired

fun statusStep :: "(string \<Rightarrow> bool) \<Rightarrow> io \<Rightarrow> statusEvent \<Rightarrow> model \<times> store \<Rightarrow> model \<times> store" where
  "statusStep IsWord e (Schedule text d) ms = (fst (setStatus text d (fst ms)), snd ms)"
| "statusStep IsWord e TimerFired ms =
     (case Update IsWord e msgResetStatus ms of Inl p \<Rightarrow> ms | Inr (ms', c) \<Rightarrow> ms')"

definition statusRun ::
  "(string \<Rightarrow> bool) \<Rightarrow> io \<Rightarrow> statusEvent list \<Rightarrow> model \<times> store \<Rightarrow> model \<times> store" where
  "statusRun IsWord e evs ms = fold (statusStep IsWord e) evs ms"

text \<open>
  Every scheduled status is transient (its duration is positive) and a timer fires only
  while one is outstanding; \<open>p\<close> is the number of timers outstanding before the events.
\<close>

fun timersOutstanding :: "int \<Rightarrow> statusEvent list \<Rightarrow> bool" where
  "timersOutstanding p [] = True"
| "timersOutstanding p (Schedule text d # evs) = (0 < d \<and> timersOutstanding (p + 1) evs)"
| "timersOutstanding p (TimerFired # evs) = (0 < p \<and> timersOutstanding (p - 1) evs)"

fun pendingAfter :: "int \<Rightarrow> statusEvent list \<Rightarrow> int" where
  "pendingAfter p [] = p"
| "pendingAfter p (Schedule text d # evs) = pendingAfter (p + 1) evs"
| "pendingAfter p (TimerFired # evs) = pendingAfter (p - 1) evs"

fun lastScheduled :: "string \<Rightarrow> statusEvent list \<Rightarrow> string" where
  "lastScheduled t [] = t"
| "lastScheduled t (Schedule text d # evs) = lastScheduled text evs"
| "lastScheduled t (TimerFired # evs) = lastScheduled t evs"

text \<open>
  A game instance lasts from one restart to the next. A message restarts the game when it
  is \<^verbatim>\<open>ctrl+r\<close>, or \<^verbatim>\<open>enter\<close> while the game is over.
\<close>

definition isRestart :: "msg \<Rightarrow> model \<Rightarrow> bool" where
  "isRestart ev m =
     (case ev of KeyMsg k runes \<Rightarrow> k = KeyCtrlR \<or> (k = KeyEnter \<and> gameOver m) | _ \<Rightarrow> False)"

fun restartFree :: "(string \<Rightarrow> bool) \<Rightarrow> (io \<times> msg) list \<Rightarrow> model \<times> store \<Rightarrow> bool" where
  "restartFree IsWord [] ms = True"
| "restartFree IsWord (step # steps) ms =
     (\<not> isRestart (snd step) (fst ms) \<and>
      (case Update IsWord (fst step) (snd step) ms of
         Inl p \<Rightarrow> True
       | Inr (ms', c) \<Rightarrow> restartFree IsWord steps ms'))"

text \<open>The outcomes of the \<^verbatim>\<open>CreateGame\<close> calls of a call log, and the game ids of its \<^verbatim>\<open>CreateGuess\<close> calls.\<close>

fun createGameOutcomes :: "storeCall list \<Rightarrow> bool list" where
  "createGameOutcomes [] = []"
| "createGameOutcomes (CreateGameCall a ok # cs) = ok # createGameOutcomes cs"
| "createGameOutcomes (c # cs) = createGameOutcomes cs"

fun createGuessIds :: "storeCall list \<Rightarrow> int list" where
  "createGuessIds [] = []"
| "createGuessIds (CreateGuessCall gid w ok # cs) = gid # createGuessIds cs"
| "createGuessIds (c # cs) = createGuessIds cs"

text \<open>
  What holds of a game instance after some of its messages: \<open>new\<close> are the calls made
  and \<open>gs\<close> the game rows created since the instance started at store \<open>s0\<close>.
\<close>

definition gameFacts :: "model \<Rightarrow> storeCall list \<Rightarrow> game list \<Rightarrow> bool" where
  "gameFacts m new gs =
     (0 \<le> gridRow m \<and>
      int (length (createGameOutcomes new)) \<le> gridRow m \<and>
      True \<notin> set (butlast (createGameOutcomes new)) \<and>
      (if gameID m = 0
       then gs = [] \<and> True \<notin> set (createGameOutcomes new) \<and> createGuessIds new = []
       else map game_id gs = [gameID m] \<and>
            createGameOutcomes new \<noteq> [] \<and> last (createGameOutcomes new) \<and>
            list_all (\<lambda>gid. gid = gameID m) (createGuessIds new)))"

definition gameInv :: "store \<Rightarrow> model \<times> store \<Rightarrow> bool" where
  "gameInv s0 ms =
     (\<exists>new gs. calls (snd ms) = calls s0 @ new \<and> games (snd ms) = games s0 @ gs \<and>
        gameFacts (fst ms) new gs)"

text \<open>
  A session and the ledger it writes to: every guess row belongs to a game row, and the
  game of the session, once it has a row, is a row with the session's answer whose
  guesses do not hold the answer while the game is in progress.
\<close>

definition refIntegrity :: "store \<Rightarrow> bool" where
  "refIntegrity s = list_all (\<lambda>r. guess_game_id r \<in> set (map game_id (games s))) (guesses s)"

definition ledgerOk :: "store \<Rightarrow> bool" where
  "ledgerOk s = (ledgerWellFormed s \<and> refIntegrity s)"

definition gameLink :: "model \<Rightarrow> store \<Rightarrow> bool" where
  "gameLink m s =
     (gameID m = 0 \<or>
      (\<exists>g\<in>set (games s). game_id g = gameID m \<and> game_answer g = answer m \<and>
         (gameOver m \<or> answer m \<notin> set (guessesOf s g))))"

definition ledgerInv :: "model \<times> store \<Rightarrow> bool" where
  "ledgerInv ms = (sessionInv (fst ms) \<and> ledgerOk (snd ms) \<and> gameLink (fst ms) (snd ms))"

text \<open>
  A run of the program, as \<^verbatim>\<open>runCLI\<close> makes one and \<^verbatim>\<open>runServer\<close> one for each SSH session:
  \<^verbatim>\<open>getModel\<close> opens the store and makes a new model, the server sets the window size
  (the command line leaves it 0), and the framework calls \<^verbatim>\<open>Init\<close> and then \<^verbatim>\<open>Update\<close>
  for each message. A play is the input of a run: what the store and the word list answer
  to \<^verbatim>\<open>Init\<close>, the window size, and the messages, each with the answers of its step. What
  a run leaves is the store, which the next run opens.
\<close>

type_synonym play = "io \<times> int \<times> int \<times> (io \<times> msg) list"

definition playSession :: "(string \<Rightarrow> bool) \<Rightarrow> play \<Rightarrow> store \<Rightarrow> panic + store" where
  "playSession IsWord p s =
     (case p of (e, w, h, steps) \<Rightarrow>
        (case runSession IsWord steps (Init e (newModel\<lparr>windowWidth := w, windowHeight := h\<rparr>, s)) of
           Inl q \<Rightarrow> Inl q
         | Inr ms \<Rightarrow> Inr (snd ms)))"

fun playSessions :: "(string \<Rightarrow> bool) \<Rightarrow> play list \<Rightarrow> store \<Rightarrow> panic + store" where
  "playSessions IsWord [] s = Inr s"
| "playSessions IsWord (p # ps) s =
     (case playSession IsWord p s of
        Inl q \<Rightarrow> Inl q
      | Inr s' \<Rightarrow> playSessions IsWord ps s')"

text \<open>
  The server: its sessions are open at the same time on the one database. \<open>Connect\<close> is
  a new session (\<^verbatim>\<open>getModel\<close>, the window size, \<^verbatim>\<open>Init\<close>) and \<open>Deliver i\<close> a message to
  session \<open>i\<close>. The sessions take turns message by message: the store calls of one
  \<^verbatim>\<open>Update\<close> are taken together.
\<close>

datatype event = Connect io int int | Deliver nat io msg

fun serveStep ::
  "(string \<Rightarrow> bool) \<Rightarrow> event \<Rightarrow> model list \<times> store \<Rightarrow> panic + model list \<times> store" where
  "serveStep IsWord (Connect e w h) st =
     (case Init e (newModel\<lparr>windowWidth := w, windowHeight := h\<rparr>, snd st) of
        (m, s') \<Rightarrow> Inr (fst st @ [m], s'))"
| "serveStep IsWord (Deliver i e ev) st =
     (if i < length (fst st)
      then (case Update IsWord e ev (fst st ! i, snd st) of
              Inl q \<Rightarrow> Inl q
            | Inr (ms', c) \<Rightarrow> Inr ((fst st)[i := fst ms'], snd ms'))
      else Inr st)"

fun serve ::
  "(string \<Rightarrow> bool) \<Rightarrow> event list \<Rightarrow> model list \<times> store \<Rightarrow> panic + model list \<times> store" where
  "serve IsWord [] st = Inr st"
| "serve IsWord (ev # evs) st =
     (case serveStep IsWord ev st of
        Inl q \<Rightarrow> Inl q
      | Inr st' \<Rightarrow> serve IsWord evs st')"

text \<open>
  What a step of one session may write: game rows with the next id, and guess rows of
  its own game or of the game row it has just created. The invariant of the server: the
  ledger is well-formed, every session is linked to it, and no two sessions share a game.
\<close>

definition ownWrites :: "model \<Rightarrow> store \<Rightarrow> model \<Rightarrow> store \<Rightarrow> bool" where
  "ownWrites m s m' s' =
     ((gameID m' = 0 \<or> gameID m' = gameID m \<or> gameID m' = nextId (map game_id (games s))) \<and>
      (\<exists>gs. games s' = games s @ gs) \<and>
      (\<exists>rs. guesses s' = guesses s @ rs \<and>
         (\<forall>r\<in>set rs. guess_game_id r = gameID m \<or>
                      guess_game_id r = nextId (map game_id (games s)))))"

definition serveInv :: "model list \<times> store \<Rightarrow> bool" where
  "serveInv st =
     (ledgerOk (snd st) \<and>
      (\<forall>i<length (fst st). sessionInv (fst st ! i) \<and> gameLink (fst st ! i) (snd st)) \<and>
      (\<forall>i<length (fst st). \<forall>j<length (fst st).
         i \<noteq> j \<longrightarrow> gameID (fst st ! i) \<noteq> 0 \<longrightarrow> gameID (fst st ! i) \<noteq> gameID (fst st ! j)))"

text \<open>Concrete inputs for the examples: a dictionary that accepts every word, and typing a word.\<close>

definition anyWord :: "string \<Rightarrow> bool" where
  "anyWord w = True"

definition emptyStore :: store where
  "emptyStore = \<lparr>games = [], guesses = [], calls = []\<rparr>"

definition ioWith :: "string \<Rightarrow> bool \<Rightarrow> io" where
  "ioWith w ok = \<lparr>randomWord = w, createGameOk = ok, createGuessOk = ok, getTotalScoreOk = ok\<rparr>"

definition typeWord :: "bool \<Rightarrow> string \<Rightarrow> (io \<times> msg) list" where
  "typeWord ok w =
     map (\<lambda>c. (ioWith [] ok, KeyMsg KeyRunes [of_char c])) w @ [(ioWith [] ok, KeyMsg KeyEnter [])]"

definition freshGame :: "string \<Rightarrow> model \<times> store" where
  "freshGame w = Init (ioWith w True) (newModel, emptyStore)"

definition ioWith_v1 :: "string \<Rightarrow> bool \<Rightarrow> io_v1" where
  "ioWith_v1 w ok = \<lparr>getWord = w, loadOk = ok, saveOk = ok\<rparr>"

definition typeWord_v1 :: "bool \<Rightarrow> string \<Rightarrow> (io_v1 \<times> msg) list" where
  "typeWord_v1 ok w =
     map (\<lambda>c. (ioWith_v1 [] ok, KeyMsg KeyRunes [of_char c])) w @ [(ioWith_v1 [] ok, KeyMsg KeyEnter [])]"

text \<open>A model whose first row holds the word \<open>w\<close>, typed in full, in a game with answer \<open>a\<close>.\<close>

definition guessedRow :: "string \<Rightarrow> string \<Rightarrow> model" where
  "guessedRow a w = newModel\<lparr>answer := a, grid := (grid newModel)[0 := w], gridCol := 5\<rparr>"

section \<open>Properties of the guess evaluation\<close>

lemma fold_upt_invariant:
  assumes "P 0 s" and "\<And>i t. i < n \<Longrightarrow> P i t \<Longrightarrow> P (Suc i) (f i t)"
  shows "P n (fold f [0..<n] s)"
  using assms
proof (induction n)
  case 0
  then show ?case by simp
next
  case (Suc n)
  have "P n (fold f [0..<n] s)"
    using Suc.prems by (intro Suc.IH) auto
  then show ?case using Suc.prems(2) [of n] by simp
qed

lemma IndexByte_found:
  "IndexByte bs c \<noteq> - 1 \<Longrightarrow>
     0 \<le> IndexByte bs c \<and> nat (IndexByte bs c) < length bs \<and> bs ! nat (IndexByte bs c) = c"
proof (induction bs)
  case Nil
  then show ?case by simp
next
  case (Cons b bs)
  show ?case
  proof (cases "b = c")
    case True
    then show ?thesis by simp
  next
    case False
    with Cons.prems have ne: "IndexByte bs c \<noteq> - 1" by (auto simp: Let_def split: if_splits)
    from Cons.IH [OF ne] False ne show ?thesis
      by (simp add: Let_def nat_add_distrib)
  qed
qed

lemma IndexByte_none: "IndexByte bs c = - 1 \<longleftrightarrow> c \<notin> set bs"
proof (induction bs)
  case Nil
  then show ?case by simp
next
  case (Cons b bs)
  have "IndexByte bs c \<noteq> - 1 \<Longrightarrow> IndexByte bs c + 1 \<noteq> - 1"
    using IndexByte_found [of bs c] by auto
  with Cons show ?case by (auto simp: Let_def)
qed

lemma IndexByte_first:
  "IndexByte bs c \<noteq> - 1 \<Longrightarrow> j < nat (IndexByte bs c) \<Longrightarrow> bs ! j \<noteq> c"
proof (induction bs arbitrary: j)
  case Nil
  then show ?case by simp
next
  case (Cons b bs)
  show ?case
  proof (cases "b = c")
    case True
    with Cons.prems show ?thesis by simp
  next
    case False
    with Cons.prems have ne: "IndexByte bs c \<noteq> - 1" by (auto simp: Let_def split: if_splits)
    have pos: "0 \<le> IndexByte bs c" using IndexByte_found [OF ne] by simp
    show ?thesis
    proof (cases j)
      case 0
      with False show ?thesis by simp
    next
      case (Suc k)
      with Cons.prems(2) False ne pos have "k < nat (IndexByte bs c)"
        by (simp add: Let_def nat_add_distrib)
      from Cons.IH [OF ne this] Suc show ?thesis by simp
    qed
  qed
qed

lemma markedLetters_update:
  assumes "i < numChars" "s = keyStateCorrect \<or> s = keyStatePresent" "length ks = numChars"
  shows "markedLetters word (ks[i := s]) = (markedLetters word ks)[i := word ! i]"
  using assms by (auto simp: markedLetters_def intro!: nth_equalityI simp: nth_list_update)

lemma consume_step:
  assumes inv: "consumeInv word ans (ks, letters)"
    and i: "i < numChars" and j: "j < numChars"
    and unmarked: "ks ! i \<noteq> keyStateCorrect" "ks ! i \<noteq> keyStatePresent"
    and hit: "letters ! j = word ! i"
    and s: "s = keyStateCorrect \<or> s = keyStatePresent"
  shows "consumeInv word ans (ks[i := s], letters[j := zeroByte])"
proof -
  from inv have lk: "length ks = numChars" and ll: "length letters = numChars"
    and ms: "mset (markedLetters word ks) + mset letters =
          mset ans + replicate_mset numChars zeroByte"
    by (simp_all add: consumeInv_def)
  let ?M = "markedLetters word ks"
  have lM: "length ?M = numChars" by (simp add: markedLetters_def)
  have Mi: "?M ! i = zeroByte" using i unmarked by (simp add: markedLetters_def)
  have zin: "zeroByte \<in># mset ?M" using Mi lM i by (metis nth_mem_mset)
  have win: "word ! i \<in># mset letters" using hit j ll by (metis nth_mem_mset)
  have "mset (?M[i := word ! i]) + mset (letters[j := zeroByte]) =
        add_mset (word ! i) (mset ?M - {#zeroByte#}) + add_mset zeroByte (mset letters - {#word ! i#})"
    using i j lM ll Mi hit by (simp add: mset_update)
  also have "\<dots> = add_mset zeroByte (mset ?M - {#zeroByte#}) + add_mset (word ! i) (mset letters - {#word ! i#})"
    by simp
  also have "\<dots> = mset ?M + mset letters"
    using zin win by (simp only: insert_DiffM)
  finally show ?thesis
    using ms lk ll markedLetters_update [OF i s lk, of word]
    by (simp add: consumeInv_def)
qed

lemma consumeInv_init:
  "length ans = numChars \<Longrightarrow>
   consumeInv word ans (replicate numChars keyStateAbsent, ans)"
proof -
  assume la: "length ans = numChars"
  have "markedLetters word (replicate numChars keyStateAbsent) = replicate numChars zeroByte"
    by (auto simp: markedLetters_def intro!: nth_equalityI)
  then show ?thesis using la by (simp add: consumeInv_def)
qed

lemma pass1Inv_init:
  "length ans = numChars \<Longrightarrow>
   pass1Inv word ans 0 (replicate numChars keyStateAbsent, ans)"
  using consumeInv_init [of ans word] by (simp add: pass1Inv_def)

lemma pass1Inv_step:
  assumes "i < numChars" "pass1Inv word ans i st"
  shows "pass1Inv word ans (Suc i) (markCorrect word ans i st)"
proof -
  obtain ks letters where st: "st = (ks, letters)" by (cases st)
  from assms(2) st have inv: "consumeInv word ans (ks, letters)"
    and rest: "\<forall>j<numChars. i \<le> j \<longrightarrow> ks ! j = keyStateAbsent \<and> letters ! j = ans ! j"
    and np: "\<forall>j<numChars. ks ! j \<noteq> keyStatePresent"
    and prev: "\<forall>j<numChars. j < i \<longrightarrow> (ks ! j = keyStateCorrect \<longleftrightarrow> word ! j = ans ! j)"
    by (simp_all add: pass1Inv_def)
  from inv have lk: "length ks = numChars" and ll: "length letters = numChars"
    by (simp_all add: consumeInv_def)
  show ?thesis
  proof (cases "word ! i = ans ! i")
    case True
    have "consumeInv word ans (ks[i := keyStateCorrect], letters[i := zeroByte])"
      using rest assms(1) True by (intro consume_step [OF inv assms(1) assms(1)]) auto
    moreover have "\<forall>j<numChars. j < Suc i \<longrightarrow>
        ((ks[i := keyStateCorrect]) ! j = keyStateCorrect \<longleftrightarrow> word ! j = ans ! j)"
      using prev True lk by (auto simp: nth_list_update less_Suc_eq)
    moreover have "\<forall>j<numChars. (ks[i := keyStateCorrect]) ! j \<noteq> keyStatePresent"
      using np lk assms(1) by (auto simp: nth_list_update)
    moreover have "\<forall>j<numChars. Suc i \<le> j \<longrightarrow>
        (ks[i := keyStateCorrect]) ! j = keyStateAbsent \<and> (letters[i := zeroByte]) ! j = ans ! j"
      using rest by (auto simp: nth_list_update)
    ultimately show ?thesis
      using st True by (simp add: pass1Inv_def markCorrect_def)
  next
    case False
    have "\<forall>j<numChars. j < Suc i \<longrightarrow> (ks ! j = keyStateCorrect \<longleftrightarrow> word ! j = ans ! j)"
      using prev False rest assms(1) by (auto simp: less_Suc_eq)
    then show ?thesis
      using st False inv rest np by (simp add: pass1Inv_def markCorrect_def)
  qed
qed

lemma pass1Inv_pass2Inv: "pass1Inv word ans numChars st \<Longrightarrow> pass2Inv word ans 0 st"
  by (cases st) (simp add: pass1Inv_def pass2Inv_def)

lemma pass2Inv_step:
  assumes "i < numChars" "pass2Inv word ans i st"
  shows "pass2Inv word ans (Suc i) (markPresent word i st)"
proof -
  obtain ks letters where st: "st = (ks, letters)" by (cases st)
  from assms(2) st have inv: "consumeInv word ans (ks, letters)"
    and np: "\<forall>j<numChars. i \<le> j \<longrightarrow> ks ! j \<noteq> keyStatePresent"
    and cor: "\<forall>j<numChars. ks ! j = keyStateCorrect \<longleftrightarrow> word ! j = ans ! j"
    by (simp_all add: pass2Inv_def)
  from inv have lk: "length ks = numChars" and ll: "length letters = numChars"
    by (simp_all add: consumeInv_def)
  let ?f = "IndexByte letters (word ! i)"
  show ?thesis
  proof (cases "ks ! i \<noteq> keyStateCorrect \<and> ?f \<noteq> - 1")
    case True
    then have f: "0 \<le> ?f" "nat ?f < length letters" "letters ! nat ?f = word ! i"
      using IndexByte_found [of letters "word ! i"] by simp_all
    have "consumeInv word ans (ks[i := keyStatePresent], letters[nat ?f := zeroByte])"
      using True np assms(1) f ll by (intro consume_step [OF inv assms(1)]) auto
    moreover have "\<forall>j<numChars. Suc i \<le> j \<longrightarrow> (ks[i := keyStatePresent]) ! j \<noteq> keyStatePresent"
      using np by (auto simp: nth_list_update)
    moreover have "\<forall>j<numChars. (ks[i := keyStatePresent]) ! j = keyStateCorrect \<longleftrightarrow> word ! j = ans ! j"
      using cor True assms(1) lk by (auto simp: nth_list_update)
    ultimately show ?thesis
      using st True by (simp add: pass2Inv_def markPresent_def Let_def)
  next
    case False
    then have "markPresent word i st = st"
      using st by (auto simp: markPresent_def Let_def)
    then show ?thesis
      using st inv np cor by (auto simp: pass2Inv_def)
  qed
qed

lemma passes_inv:
  assumes "length ans = numChars"
  shows "pass2Inv word ans numChars
     (fold (markPresent word) [0..<numChars]
        (fold (markCorrect word ans) [0..<numChars]
           (replicate numChars keyStateAbsent, ans)))"
proof -
  have "pass1Inv word ans numChars
     (fold (markCorrect word ans) [0..<numChars] (replicate numChars keyStateAbsent, ans))"
    by (rule fold_upt_invariant [where P = "pass1Inv word ans"])
      (simp_all add: pass1Inv_init assms pass1Inv_step)
  then have "pass2Inv word ans 0
     (fold (markCorrect word ans) [0..<numChars] (replicate numChars keyStateAbsent, ans))"
    by (rule pass1Inv_pass2Inv)
  then show ?thesis
    by (rule fold_upt_invariant [where P = "pass2Inv word ans"]) (simp add: pass2Inv_step)
qed

lemma count_list_map_upt:
  "count_list (map f xs) c = length (filter (\<lambda>i. f i = c) xs)"
  by (induction xs) auto

lemma markedCount_markedLetters:
  assumes "c \<noteq> zeroByte"
  shows "markedCount word ks c = count (mset (markedLetters word ks)) c"
proof -
  have "count (mset (markedLetters word ks)) c =
     length (filter (\<lambda>i. (if ks ! i = keyStateCorrect \<or> ks ! i = keyStatePresent then word ! i else zeroByte) = c) [0..<numChars])"
    by (simp only: markedLetters_def count_mset count_list_map_upt)
  also have "\<dots> = markedCount word ks c"
    unfolding markedCount_def
    by (rule arg_cong [where f = length], rule filter_cong) (use assms in auto)
  finally show ?thesis ..
qed

lemma rowKeyStates_example:
  "rowKeyStates ''SPEED'' ''ERASE'' =
     [keyStatePresent, keyStateAbsent, keyStateAbsent, keyStatePresent, keyStatePresent]"
  by code_simp

lemma rowKeyStates_repeated_example:
  "rowKeyStates ''SPEED'' ''EERIE'' =
     [keyStatePresent, keyStatePresent, keyStateAbsent, keyStateAbsent, keyStateAbsent]"
  by code_simp

text \<open>
  Claim C2. For every answer and every guessed row of \<open>numChars\<close> bytes, a position of the
  row is coloured \<open>Correct\<close> exactly when its letter equals the answer's letter at that
  position, and for every letter \<open>c\<close> the number of positions of the row that hold \<open>c\<close>
  and are coloured \<open>Correct\<close> or \<open>Present\<close> is at most the number of occurrences of \<open>c\<close>
  in the ans. A letter is any byte but the zero byte, which the code uses as the mark
  of a consumed ans letter and which no key press can put into the grid.
\<close>

theorem rowKeyStates_no_overcount:
  assumes "length ans = numChars" and "length word = numChars"
  shows "(\<forall>i<numChars. rowKeyStates ans word ! i = keyStateCorrect \<longleftrightarrow> word ! i = ans ! i) \<and>
         (\<forall>c. c \<noteq> zeroByte \<longrightarrow>
            markedCount word (rowKeyStates ans word) c \<le> count_list ans c)"
proof -
  obtain ks letters where fin: "fold (markPresent word) [0..<numChars]
        (fold (markCorrect word ans) [0..<numChars]
           (replicate numChars keyStateAbsent, ans)) = (ks, letters)"
    by (cases "fold (markPresent word) [0..<numChars]
        (fold (markCorrect word ans) [0..<numChars]
           (replicate numChars keyStateAbsent, ans))")
  have rk: "rowKeyStates ans word = ks" by (simp add: rowKeyStates_def fin)
  from passes_inv [OF assms(1), of word] fin
  have inv: "consumeInv word ans (ks, letters)"
    and cor: "\<forall>j<numChars. ks ! j = keyStateCorrect \<longleftrightarrow> word ! j = ans ! j"
    by (simp_all add: pass2Inv_def)
  have "markedCount word ks c \<le> count_list ans c" if c: "c \<noteq> zeroByte" for c
  proof -
    have "count (mset (markedLetters word ks)) c \<le>
          count (mset (markedLetters word ks) + mset letters) c" by simp
    also have "\<dots> = count (mset ans + replicate_mset numChars zeroByte) c"
      using inv by (simp add: consumeInv_def)
    also have "\<dots> = count_list ans c" using c by (simp add: count_mset count_list_eq_length_filter)
    finally show ?thesis using markedCount_markedLetters [OF c] by simp
  qed
  with cor rk show ?thesis by simp
qed

theorem rowKeyStates_no_overcount_witness:
  "length ''SPEED'' = numChars \<and> length ''EERIE'' = numChars \<and> CHR ''E'' \<noteq> zeroByte \<and>
   markedCount ''EERIE'' (rowKeyStates ''SPEED'' ''EERIE'') CHR ''E'' \<le> count_list ''SPEED'' CHR ''E'' \<and>
   markedCount ''EERIE'' (rowKeyStates ''SPEED'' ''EERIE'') CHR ''E'' = 2 \<and>
   count_list ''EERIE'' CHR ''E'' = 3 \<and> count_list ''SPEED'' CHR ''E'' = 2"
proof -
  have a: "length ''SPEED'' = numChars" and b: "length ''EERIE'' = numChars"
    by (simp_all add: numChars_def)
  have nz: "CHR ''E'' \<noteq> zeroByte" by (simp add: zeroByte_def)
  from rowKeyStates_no_overcount [OF a b] nz
  have le: "markedCount ''EERIE'' (rowKeyStates ''SPEED'' ''EERIE'') CHR ''E'' \<le> count_list ''SPEED'' CHR ''E''"
    by blast
  have two: "markedCount ''EERIE'' (rowKeyStates ''SPEED'' ''EERIE'') CHR ''E'' = 2"
    unfolding rowKeyStates_repeated_example by code_simp
  show ?thesis using a b nz le two by simp
qed

lemma fold_simulation:
  assumes "R s t" and "\<And>x s t. x \<in> set xs \<Longrightarrow> R s t \<Longrightarrow> R (f x s) (g x t)"
  shows "R (fold f xs s) (fold g xs t)"
  using assms by (induction xs arbitrary: s t) auto

lemma IndexByte_lettersOf:
  assumes "length consumed = length ans" "c \<noteq> zeroByte"
  shows "IndexByte (lettersOf ans consumed) c =
     (case firstUnconsumed ans consumed c of None \<Rightarrow> - 1 | Some j \<Rightarrow> int j)"
  using assms
proof (induction ans consumed c rule: firstUnconsumed.induct)
  case (1 a as u us c)
  show ?case
  proof (cases "\<not> u \<and> a = c")
    case True
    then show ?thesis by (simp add: lettersOf_def)
  next
    case False
    with 1 have IH: "IndexByte (lettersOf as us) c =
       (case firstUnconsumed as us c of None \<Rightarrow> - 1 | Some j \<Rightarrow> int j)"
      by auto
    have hd: "(if u then zeroByte else a) \<noteq> c"
      using False "1.prems" by auto
    have "IndexByte (lettersOf (a # as) (u # us)) c =
       (let r = IndexByte (lettersOf as us) c in if r = - 1 then - 1 else r + 1)"
      using hd by (simp add: lettersOf_def)
    then show ?thesis
      using IH False by (auto simp: Let_def split: option.splits)
  qed
qed (simp_all add: lettersOf_def)

lemma firstUnconsumed_bound:
  "firstUnconsumed ans consumed c = Some j \<Longrightarrow> j < length ans \<and> j < length consumed"
  by (induction ans consumed c arbitrary: j rule: firstUnconsumed.induct) (auto split: if_splits)

lemma lettersOf_update:
  "length consumed = length ans \<Longrightarrow>
   (lettersOf ans consumed)[j := zeroByte] = lettersOf ans (consumed[j := True])"
proof (induction ans consumed arbitrary: j rule: list_induct2')
  case (4 a as u us)
  then show ?case by (cases j) (simp_all add: lettersOf_def)
qed (simp_all add: lettersOf_def)

lemma evalRel_pass1:
  assumes "evalRel ans st sp"
  shows "evalRel ans (markCorrect word ans i st) (specPass1 ans word i sp)"
  using assms
  by (cases st; cases sp) (auto simp: evalRel_def markCorrect_def specPass1_def lettersOf_update)

lemma evalRel_pass2:
  assumes "evalRel ans st sp" "word ! i \<noteq> zeroByte"
  shows "evalRel ans (markPresent word i st) (specPass2 ans word i sp)"
proof -
  obtain ks letters out consumed where st: "st = (ks, letters)" and sp: "sp = (out, consumed)"
    by (cases st; cases sp) auto
  from assms(1) st sp have eq: "ks = out" and len: "length consumed = length ans"
    and lt: "letters = lettersOf ans consumed"
    by (simp_all add: evalRel_def)
  show ?thesis
  proof (cases "firstUnconsumed ans consumed (word ! i)")
    case None
    then show ?thesis
      using st sp eq len lt IndexByte_lettersOf [OF len assms(2)]
      by (simp add: markPresent_def specPass2_def evalRel_def Let_def)
  next
    case (Some j)
    then show ?thesis
      using st sp eq len lt IndexByte_lettersOf [OF len assms(2)] lettersOf_update [OF len]
      by (simp add: markPresent_def specPass2_def evalRel_def Let_def)
  qed
qed

text \<open>
  Claim C3. The evaluation of the code is the two-pass algorithm of the specification:
  on every answer and every guess of \<open>numChars\<close> letters (bytes other than the zero byte)
  the colours computed by \<^verbatim>\<open>viewGridRowFilled\<close> are those of \<open>Evaluate\<close>, which marks the
  exact matches first and then, from left to right, marks a letter \<open>Present\<close> iff it
  occurs at an unconsumed position of the answer, consuming the first such position.
  For the answer SPEED and the guess ERASE the colours are Present, Absent, Absent,
  Present, Present.
\<close>

theorem rowKeyStates_refines_Evaluate:
  assumes "length ans = numChars" "length guess = numChars" "zeroByte \<notin> set guess"
  shows "rowKeyStates ans guess = Evaluate ans guess \<and>
         rowKeyStates ''SPEED'' ''ERASE'' =
           [keyStatePresent, keyStateAbsent, keyStateAbsent, keyStatePresent, keyStatePresent]"
proof -
  have nz: "guess ! i \<noteq> zeroByte" if "i < numChars" for i
    using that assms(2,3) by (metis nth_mem)
  have init: "evalRel ans (replicate numChars keyStateAbsent, ans)
     (replicate numChars keyStateAbsent, replicate numChars False)"
    using assms(1) by (auto simp: evalRel_def lettersOf_def intro!: nth_equalityI)
  have "evalRel ans
     (fold (markCorrect guess ans) [0..<numChars] (replicate numChars keyStateAbsent, ans))
     (fold (specPass1 ans guess) [0..<numChars]
        (replicate numChars keyStateAbsent, replicate numChars False))"
    by (rule fold_simulation [where R = "evalRel ans", OF init]) (rule evalRel_pass1)
  then have "evalRel ans
     (fold (markPresent guess) [0..<numChars]
        (fold (markCorrect guess ans) [0..<numChars] (replicate numChars keyStateAbsent, ans)))
     (fold (specPass2 ans guess) [0..<numChars]
        (fold (specPass1 ans guess) [0..<numChars]
          (replicate numChars keyStateAbsent, replicate numChars False)))"
    by (rule fold_simulation [where R = "evalRel ans"]) (rule evalRel_pass2, simp_all add: nz)
  then have "rowKeyStates ans guess = Evaluate ans guess"
    by (auto simp: rowKeyStates_def Evaluate_def evalRel_def split: prod.splits)
  then show ?thesis by (simp add: rowKeyStates_example)
qed

theorem rowKeyStates_refines_Evaluate_witness:
  "length ''SPEED'' = numChars \<and> length ''ERASE'' = numChars \<and> zeroByte \<notin> set ''ERASE'' \<and>
   Evaluate ''SPEED'' ''ERASE'' =
     [keyStatePresent, keyStateAbsent, keyStateAbsent, keyStatePresent, keyStatePresent]"
proof -
  have a: "length ''SPEED'' = numChars" and b: "length ''ERASE'' = numChars"
    by (simp_all add: numChars_def)
  have nz: "zeroByte \<notin> set ''ERASE''" by (simp add: zeroByte_def)
  from rowKeyStates_refines_Evaluate [OF a b nz]
  have "Evaluate ''SPEED'' ''ERASE'' =
     [keyStatePresent, keyStateAbsent, keyStateAbsent, keyStatePresent, keyStatePresent]"
    by metis
  then show ?thesis using a b nz by blast
qed

section \<open>Properties of the score ledger\<close>

lemma joinRows_rowsOf: "joinRows s = concat (map (rowsOf s) (games s))"
  unfolding joinRows_def
  by (rule arg_cong [where f = concat], rule map_cong) (simp_all add: rowsOf_def)

lemma game_scores_scoresOf: "game_scores s = scoresOf (joinRows s)"
  by (simp add: game_scores_def scoresOf_def)

lemma rowsOf_game: "r \<in> set (rowsOf s g) \<Longrightarrow> fst r = g"
  by (auto simp: rowsOf_def)

lemma rowsOf_game_triple: "(g', victory, gs) \<in> set (rowsOf s g) \<Longrightarrow> g' = g"
  by (auto simp: rowsOf_def)

lemma rowIds_rowsOf:
  "map (\<lambda>(g, victory, gs). game_id g) (rowsOf s g) = replicate (length (rowsOf s g)) (game_id g)"
  by (rule nth_equalityI) (auto dest!: rowsOf_game [OF nth_mem] simp: case_prod_beta)

lemma filter_rowsOf_same:
  "filter (\<lambda>(g', victory, gs). game_id g' = game_id g) (rowsOf s g) = rowsOf s g"
  by (rule filter_True) (auto dest!: rowsOf_game_triple)

lemma filter_rows_other:
  assumes "game_id g \<notin> game_id ` set gl"
  shows "filter (\<lambda>(g', victory, gs). game_id g' = game_id g) (concat (map (rowsOf s) gl)) = []"
  using assms by (auto simp: filter_empty_conv image_iff dest!: rowsOf_game_triple)

lemma rowIds_subset:
  "set (map (\<lambda>(g, victory, gs). game_id g) (concat (map (rowsOf s) gl))) \<subseteq> game_id ` set gl"
  by (auto dest!: rowsOf_game_triple)

lemma remdups_replicate_append:
  "a \<notin> set ys \<Longrightarrow> remdups (replicate k a @ ys) = (if k = 0 then remdups ys else a # remdups ys)"
  by (induction k) auto

lemma sum_scoresOf:
  assumes "distinct (map game_id gl)"
  shows "sum_list (map snd (scoresOf (concat (map (rowsOf s) gl)))) = sum_list (map (groupScore s) gl)"
  using assms
proof (induction gl)
  case Nil
  then show ?case by (simp add: scoresOf_def)
next
  case (Cons g gl)
  let ?rest = "concat (map (rowsOf s) gl)"
  let ?rid = "\<lambda>(g :: game, victory :: guess, gs :: guess). game_id g"
  from Cons.prems have fresh: "game_id g \<notin> game_id ` set gl" and dist: "distinct (map game_id gl)"
    by auto
  have notin: "game_id g \<notin> set (map ?rid ?rest)"
    using fresh rowIds_subset [of s gl] by blast
  have ids: "remdups (map ?rid (rowsOf s g @ ?rest)) =
     (if rowsOf s g = [] then remdups (map ?rid ?rest) else game_id g # remdups (map ?rid ?rest))"
    using remdups_replicate_append [OF notin, of "length (rowsOf s g)"]
    by (simp add: rowIds_rowsOf)
  have cnt_g: "filter (\<lambda>(g', victory, gs). game_id g' = game_id g) (rowsOf s g @ ?rest) = rowsOf s g"
    using filter_rows_other [OF fresh, of s] by (simp add: filter_rowsOf_same)
  have cnt_other: "filter (\<lambda>(g', victory, gs). game_id g' = i) (rowsOf s g @ ?rest) =
      filter (\<lambda>(g', victory, gs). game_id g' = i) ?rest" if "i \<in> set (map ?rid ?rest)" for i
  proof -
    from that notin have "i \<noteq> game_id g" by metis
    then have "filter (\<lambda>(g', victory, gs). game_id g' = i) (rowsOf s g) = []"
      by (auto simp: filter_empty_conv dest!: rowsOf_game_triple)
    then show ?thesis by simp
  qed
  have tail: "map (\<lambda>i. 10 * (11 - int (length (filter (\<lambda>(g', victory, gs). game_id g' = i) (rowsOf s g @ ?rest)))))
                (remdups (map ?rid ?rest)) =
              map snd (scoresOf ?rest)"
    unfolding scoresOf_def map_map comp_def snd_conv
  proof (rule map_cong [OF refl])
    fix i
    assume "i \<in> set (remdups (map ?rid ?rest))"
    then have "i \<in> set (map ?rid ?rest)" by (simp only: set_remdups)
    then show "10 * (11 - int (length (filter (\<lambda>(g', victory, gs). game_id g' = i) (rowsOf s g @ ?rest)))) =
       10 * (11 - int (length (filter (\<lambda>(g', victory, gs). game_id g' = i) ?rest)))"
      by (simp only: cnt_other)
  qed
  have "sum_list (map snd (scoresOf (rowsOf s g @ ?rest))) =
        groupScore s g + sum_list (map snd (scoresOf ?rest))"
  proof (cases "rowsOf s g = []")
    case True
    then show ?thesis by (simp add: groupScore_def)
  next
    case False
    have "map snd (scoresOf (rowsOf s g @ ?rest)) =
       map (\<lambda>i. 10 * (11 - int (length (filter (\<lambda>(g', victory, gs). game_id g' = i) (rowsOf s g @ ?rest)))))
           (remdups (map ?rid (rowsOf s g @ ?rest)))"
      by (simp add: scoresOf_def comp_def)
    also have "\<dots> = 10 * (11 - int (length (rowsOf s g))) # map snd (scoresOf ?rest)"
      unfolding ids by (simp only: False if_False list.map tail cnt_g)
    finally show ?thesis using False by (simp add: groupScore_def)
  qed
  then show ?case using Cons.IH [OF dist] by simp
qed

lemma length_concat_map_const:
  "length (concat (map (\<lambda>v. map (f v) xs) vs)) = length vs * length xs"
  by (induction vs) auto

lemma length_victories:
  "length (filter (\<lambda>victory. game_id g = guess_game_id victory \<and> game_answer g = guess_guess victory) rs)
     = count_list (map guess_guess (filter (\<lambda>r. guess_game_id r = game_id g) rs)) (game_answer g)"
  by (induction rs) auto

lemma length_rowsOf:
  "length (rowsOf s g) = count_list (guessesOf s g) (game_answer g) * length (guessesOf s g)"
proof -
  have "length (filter (\<lambda>gs. game_id g = guess_game_id gs) (guesses s)) = length (guessesOf s g)"
    unfolding guessesOf_def length_map
    by (rule arg_cong [where f = length], rule filter_cong) auto
  then show ?thesis
    unfolding rowsOf_def length_concat_map_const length_victories
    by (simp add: guessesOf_def)
qed

lemma count_only_last:
  assumes "a \<notin> set (butlast xs)"
  shows "count_list xs a = (if xs \<noteq> [] \<and> last xs = a then 1 else 0)"
proof (cases xs rule: rev_cases)
  case Nil
  then show ?thesis by simp
next
  case (snoc ys y)
  with assms have "a \<notin> set ys" by simp
  then have "count_list ys a = 0" by (simp add: count_list_0_iff)
  with snoc show ?thesis by simp
qed

lemma groupScore_contribution:
  assumes "answerOnlyLast s g"
  shows "groupScore s g = gameContribution s g"
proof -
  let ?gs = "guessesOf s g"
  have c: "count_list ?gs (game_answer g) = (if ?gs \<noteq> [] \<and> last ?gs = game_answer g then 1 else 0)"
    using assms by (intro count_only_last) (simp add: answerOnlyLast_def)
  show ?thesis
  proof (cases "?gs \<noteq> [] \<and> last ?gs = game_answer g")
    case True
    with c have "length (rowsOf s g) = length ?gs" by (simp add: length_rowsOf)
    moreover from True have "rowsOf s g \<noteq> []" using calculation by auto
    ultimately show ?thesis using True by (simp add: groupScore_def gameContribution_def Let_def)
  next
    case False
    with c have "length (rowsOf s g) = 0" by (simp add: length_rowsOf)
    then show ?thesis using False by (auto simp: groupScore_def gameContribution_def Let_def)
  qed
qed

lemma scoreValue_sqlSum: "scoreValue (sqlSum xs) = sum_list xs"
  by (simp add: scoreValue_def sqlSum_def)

text \<open>
  On a ledger in which game ids are distinct and the answer of a game occurs among its
  guesses at most once and then as the last of them, the query \<^verbatim>\<open>GetTotalScore\<close> succeeds
  with the sum, over all games, of \<open>100 - 10 * (count - 1)\<close> for a game whose last guess
  equals its answer and 0 for any other game, \<open>count\<close> being the number of guesses of the
  game. The ledgers that the program writes are of this kind, as is shown further on.
\<close>

lemma GetTotalScore_ledgerWellFormed:
  assumes "ledgerWellFormed s"
  shows "\<exists>r. fst (GetTotalScore True s) = Inr r \<and> scoreValue r = TotalScore s"
proof -
  from assms have dist: "distinct (map game_id (games s))"
    and last: "\<forall>g\<in>set (games s). answerOnlyLast s g"
    by (simp_all add: ledgerWellFormed_def list_all_iff)
  have "scoreValue (sqlSum (map snd (game_scores s))) = sum_list (map (groupScore s) (games s))"
    by (simp add: scoreValue_sqlSum game_scores_scoresOf joinRows_rowsOf sum_scoresOf [OF dist])
  also have "\<dots> = TotalScore s"
    unfolding TotalScore_def
    by (rule arg_cong [where f = sum_list], rule map_cong [OF refl]) (simp add: last groupScore_contribution)
  finally show ?thesis by (simp add: GetTotalScore_def)
qed

lemma GetTotalScore_three_games:
  "ledgerWellFormed
     \<lparr>games = [Game 1 ''CRANE'', Game 2 ''SPEED'', Game 3 ''ABCDE''],
      guesses = [Guess 1 1 ''SLATE'', Guess 2 2 ''SPEED'', Guess 3 1 ''CRANE'', Guess 4 3 ''SLATE''],
      calls = []\<rparr> \<and>
   (\<exists>r. fst (GetTotalScore True
          \<lparr>games = [Game 1 ''CRANE'', Game 2 ''SPEED'', Game 3 ''ABCDE''],
           guesses = [Guess 1 1 ''SLATE'', Guess 2 2 ''SPEED'', Guess 3 1 ''CRANE'', Guess 4 3 ''SLATE''],
           calls = []\<rparr>) = Inr r \<and> scoreValue r = 190)"
proof -
  let ?s = "\<lparr>games = [Game 1 ''CRANE'', Game 2 ''SPEED'', Game 3 ''ABCDE''],
      guesses = [Guess 1 1 ''SLATE'', Guess 2 2 ''SPEED'', Guess 3 1 ''CRANE'', Guess 4 3 ''SLATE''],
      calls = []\<rparr>"
  have wf: "ledgerWellFormed ?s" by code_simp
  have total: "TotalScore ?s = 190" by code_simp
  from GetTotalScore_ledgerWellFormed [OF wf] total wf show ?thesis by simp
qed

text \<open>
  The restriction matters only off the ledgers the program writes. In a ledger in which a
  guess follows the guess that equals the answer, the last guess of the game is not its
  answer, while the query finds a guess equal to the answer and counts the game with its
  two guesses. No run writes such a ledger: a game is over with the guess that equals its
  answer, and no guess is accepted once the game is over.
\<close>

lemma GetTotalScore_guess_after_answer:
  "fst (GetTotalScore True
      \<lparr>games = [Game 1 ''CRANE''],
       guesses = [Guess 1 1 ''CRANE'', Guess 2 1 ''SLATE''], calls = []\<rparr>) = Inr (Some 90) \<and>
   TotalScore
      \<lparr>games = [Game 1 ''CRANE''],
       guesses = [Guess 1 1 ''CRANE'', Guess 2 1 ''SLATE''], calls = []\<rparr> = 0 \<and>
   \<not> ledgerWellFormed
      \<lparr>games = [Game 1 ''CRANE''],
       guesses = [Guess 1 1 ''CRANE'', Guess 2 1 ''SLATE''], calls = []\<rparr>"
  by code_simp

text \<open>
  The statistics file of the earlier generation: after any number of losses and wins
  with \<open>k1, ..., kN\<close> guesses, each between 1 and 6, \<^verbatim>\<open>db.score\<close> is the sum of
  \<open>100 - 10 * (ki - 1)\<close>.
\<close>

lemma db_score_explicit:
  "length d = numGuesses + 1 \<Longrightarrow>
   db_score d = 100 * d ! 1 + 90 * d ! 2 + 80 * d ! 3 + 70 * d ! 4 + 60 * d ! 5 + 50 * d ! 6"
  by (simp add: db_score_def numGuesses_def eval_nat_numeral)

lemma db_score_addWin:
  assumes "length d = numGuesses + 1" "1 \<le> k" "k \<le> int numGuesses"
  shows "\<exists>d'. addWin k d = Inr d' \<and> length d' = numGuesses + 1 \<and>
           db_score d' = db_score d + (100 - 10 * (k - 1))"
proof -
  let ?d' = "d[nat k := d ! nat k + 1]"
  have eq: "addWin k d = Inr ?d'" using assms(2,3) by (simp add: addWin_def)
  have len: "length ?d' = numGuesses + 1" using assms(1) by simp
  from assms(2,3) have "nat k \<in> {1, 2, 3, 4, 5, 6}"
    by (auto simp: numGuesses_def)
  then have "db_score ?d' = db_score d + (100 - 10 * (k - 1))"
    using assms(1) by (auto simp: db_score_explicit [OF len] db_score_explicit [OF assms(1)]
        numGuesses_def nth_list_update)
  with eq len show ?thesis by blast
qed

lemma db_score_addLoss:
  assumes "length d = numGuesses + 1"
  shows "length (addLoss d) = numGuesses + 1 \<and> db_score (addLoss d) = db_score d"
proof -
  let ?d' = "d[0 := d ! 0 + 1]"
  have len: "length ?d' = numGuesses + 1" using assms by simp
  have "db_score ?d' = db_score d"
    by (simp add: db_score_explicit [OF len] db_score_explicit [OF assms])
  with len show ?thesis by (simp add: addLoss_def)
qed

lemma db_score_losses:
  "length d = numGuesses + 1 \<Longrightarrow>
   length ((addLoss ^^ n) d) = numGuesses + 1 \<and> db_score ((addLoss ^^ n) d) = db_score d"
  by (induction n) (simp_all add: db_score_addLoss)

lemma db_score_recordWins:
  assumes "length d = numGuesses + 1" "\<forall>k\<in>set ks. 1 \<le> k \<and> k \<le> int numGuesses"
  shows "\<exists>d'. recordWins ks d = Inr d' \<and> length d' = numGuesses + 1 \<and>
           db_score d' = db_score d + sum_list (map (\<lambda>k. 100 - 10 * (k - 1)) ks)"
  using assms
proof (induction ks arbitrary: d)
  case Nil
  then show ?case by simp
next
  case (Cons k ks)
  from Cons.prems have k: "1 \<le> k" "k \<le> int numGuesses" by simp_all
  from db_score_addWin [OF Cons.prems(1) k] obtain d1 where a: "addWin k d = Inr d1"
    and l: "length d1 = numGuesses + 1" and s: "db_score d1 = db_score d + (100 - 10 * (k - 1))"
    by blast
  from Cons.IH [OF l] Cons.prems(2) obtain d' where "recordWins ks d1 = Inr d'"
    and "length d' = numGuesses + 1"
    and "db_score d' = db_score d1 + sum_list (map (\<lambda>k. 100 - 10 * (k - 1)) ks)"
    by auto
  with a s show ?case by simp
qed

lemma db_score_recorded:
  assumes "\<forall>k\<in>set ks. 1 \<le> k \<and> k \<le> int numGuesses"
  shows "\<exists>d'. recordWins ks ((addLoss ^^ n) emptyDb) = Inr d' \<and>
           db_score d' = sum_list (map (\<lambda>k. 100 - 10 * (k - 1)) ks)"
proof -
  have e: "length emptyDb = numGuesses + 1" by (simp add: emptyDb_def)
  have z: "db_score emptyDb = 0"
    by (simp add: db_score_explicit [OF e]) (simp add: emptyDb_def numGuesses_def)
  from db_score_losses [OF e, of n] have l: "length ((addLoss ^^ n) emptyDb) = numGuesses + 1"
    and s: "db_score ((addLoss ^^ n) emptyDb) = db_score emptyDb" by simp_all
  from db_score_recordWins [OF l assms] s z show ?thesis by auto
qed

section \<open>Properties of the game session\<close>


lemma updateScore_eq:
  "updateScore e (m, s) =
     (m\<lparr>score := (if getTotalScoreOk e then scoreValue (sqlSum (map snd (game_scores s))) else score m)\<rparr>,
      s\<lparr>calls := calls s @ [GetTotalScoreCall (getTotalScoreOk e)]\<rparr>)"
  by (simp add: updateScore_def GetTotalScore_def)

lemma saveGuess_model:
  "\<exists>g. fst (snd (saveGuess e w (m, s))) = m\<lparr>gameID := g\<rparr>"
proof (cases "gameID m = 0")
  case True
  show ?thesis
  proof (cases "createGameOk e")
    case True
    with \<open>gameID m = 0\<close> show ?thesis
      by (cases "createGuessOk e") (auto simp: saveGuess_def CreateGame_def CreateGuess_def Let_def)
  next
    case False
    with \<open>gameID m = 0\<close> have "fst (snd (saveGuess e w (m, s))) = m"
      by (simp add: saveGuess_def CreateGame_def)
    then have "fst (snd (saveGuess e w (m, s))) = m\<lparr>gameID := gameID m\<rparr>" by simp
    then show ?thesis ..
  qed
next
  case False
  then have "fst (snd (saveGuess e w (m, s))) = m"
    by (cases "createGuessOk e") (simp_all add: saveGuess_def CreateGuess_def Let_def)
  then have "fst (snd (saveGuess e w (m, s))) = m\<lparr>gameID := gameID m\<rparr>" by simp
  then show ?thesis ..
qed

lemma fold_acceptKey_success:
  "fst (fold (acceptKey ans guess) [0..<n] (b, ks)) = (b \<and> (\<forall>i<n. guess ! i = ans ! i))"
proof (induction n)
  case 0
  then show ?case by simp
next
  case (Suc n)
  obtain b' ks' where f: "fold (acceptKey ans guess) [0..<n] (b, ks) = (b', ks')"
    by (cases "fold (acceptKey ans guess) [0..<n] (b, ks)")
  with Suc have b': "b' = (b \<and> (\<forall>i<n. guess ! i = ans ! i))" by simp
  have "fold (acceptKey ans guess) [0..<Suc n] (b, ks) = acceptKey ans guess n (b', ks')"
    using f by simp
  also have "fst \<dots> = (b' \<and> guess ! n = ans ! n)"
    by (simp add: acceptKey_def Let_def)
  finally show ?case
    using b' by (auto simp: less_Suc_eq)
qed

lemma all_nth_eq:
  "length xs = n \<Longrightarrow> length ys = n \<Longrightarrow> (\<forall>i<n. xs ! i = ys ! i) = (xs = ys)"
  by (auto simp: list_eq_iff_nth_eq)


lemma doWin_eq:
  "doWin e (m, s) =
     ((m\<lparr>gameOver := True,
          score := (if getTotalScoreOk e then scoreValue (sqlSum (map snd (game_scores s))) else score m),
          status := ''You win!''\<rparr>,
       s\<lparr>calls := calls s @ [GetTotalScoreCall (getTotalScoreOk e)]\<rparr>), None)"
  by (simp add: doWin_def updateScore_eq setStatus_def)

lemma doLoss_eq:
  "doLoss e (m, s) =
     ((m\<lparr>gameOver := True,
          score := (if getTotalScoreOk e then scoreValue (sqlSum (map snd (game_scores s))) else score m),
          status := ''The word was '' @ answer m @ ''. Better luck next time!''\<rparr>,
       s\<lparr>calls := calls s @ [GetTotalScoreCall (getTotalScoreOk e)]\<rparr>), None)"
  by (simp add: doLoss_def updateScore_eq setStatus_def)

lemma doAcceptGuess_accepted:
  assumes "\<not> gameOver m" "gridCol m = int numChars" "0 \<le> gridRow m" "gridRow m < int numGuesses"
    and "IsWord (grid m ! nat (gridRow m))"
    and "saveGuess e (grid m ! nat (gridRow m)) (m, s) = (err, m1, s1)"
    and "fold (acceptKey (answer m1) (grid m ! nat (gridRow m))) [0..<numChars] (True, keyStates m1) = (success, ks)"
  shows "doAcceptGuess IsWord e (m, s) =
     (if success
      then Inr (doWin e (m1\<lparr>keyStates := ks, gridRow := gridRow m1 + 1, gridCol := 0\<rparr>, s1))
      else if gridRow m1 + 1 = int numGuesses
      then Inr (doLoss e (m1\<lparr>keyStates := ks, gridRow := gridRow m1 + 1, gridCol := 0\<rparr>, s1))
      else Inr ((m1\<lparr>keyStates := ks, gridRow := gridRow m1 + 1, gridCol := 0\<rparr>, s1), None))"
  using assms by (simp add: doAcceptGuess_def Let_def)


lemma doRestart_eq:
  "doRestart e (m, s) =
     (m\<lparr>gameID := 0, gameOver := False, answer := copyBytes (answer m) (randomWord e),
        gridCol := 0, gridRow := 0, keyStates := Map.empty,
        score := (if getTotalScoreOk e then scoreValue (sqlSum (map snd (game_scores s))) else score m),
        status := ''Score: '' @ string_of_int
           (if getTotalScoreOk e then scoreValue (sqlSum (map snd (game_scores s))) else score m)\<rparr>,
      s\<lparr>calls := calls s @ [GetTotalScoreCall (getTotalScoreOk e)]\<rparr>)"
  by (simp add: doRestart_def updateScore_eq resetStatus_def Let_def)


lemma Update_msgResetStatus:
  "Update IsWord e msgResetStatus (m, s) =
     Inr ((m\<lparr>statusPending := statusPending m - 1,
              status := (if statusPending m - 1 = 0 then ''Score: '' @ string_of_int (score m)
                         else status m)\<rparr>, s), None)"
  by (simp add: Update_def resetStatus_def Let_def)

lemma statusStep_Schedule:
  "0 < d \<Longrightarrow> statusStep IsWord e (Schedule text d) (m, s) =
     (m\<lparr>status := text, statusPending := statusPending m + 1\<rparr>, s)"
  by (simp add: setStatus_def)

lemma statusStep_TimerFired:
  "statusStep IsWord e TimerFired (m, s) =
     (m\<lparr>statusPending := statusPending m - 1,
        status := (if statusPending m - 1 = 0 then ''Score: '' @ string_of_int (score m)
                   else status m)\<rparr>, s)"
  by (simp add: Update_msgResetStatus)

lemma lastScheduled_irrelevant:
  assumes "timersOutstanding 0 evs" "pendingAfter 0 evs \<noteq> 0"
  shows "lastScheduled a evs = lastScheduled b evs"
proof (cases evs)
  case Nil
  with assms show ?thesis by simp
next
  case (Cons ev rest)
  with assms show ?thesis by (cases ev) simp_all
qed

lemma statusRun_status:
  assumes "timersOutstanding (statusPending m) evs" "0 \<le> statusPending m"
  shows "snd (statusRun IsWord e evs (m, s)) = s \<and>
     score (fst (statusRun IsWord e evs (m, s))) = score m \<and>
     statusPending (fst (statusRun IsWord e evs (m, s))) = pendingAfter (statusPending m) evs \<and>
     status (fst (statusRun IsWord e evs (m, s))) =
       (if evs \<noteq> [] \<and> pendingAfter (statusPending m) evs = 0
        then ''Score: '' @ string_of_int (score m)
        else lastScheduled (status m) evs)"
  using assms
proof (induction evs arbitrary: m)
  case Nil
  then show ?case by (simp add: statusRun_def)
next
  case (Cons ev evs)
  show ?case
  proof (cases ev)
    case (Schedule label d)
    let ?m1 = "m\<lparr>status := label, statusPending := statusPending m + 1\<rparr>"
    from Cons.prems Schedule have d: "0 < d" and out: "timersOutstanding (statusPending ?m1) evs"
      by simp_all
    have run: "statusRun IsWord e (ev # evs) (m, s) = statusRun IsWord e evs (?m1, s)"
      using Schedule d by (simp add: statusRun_def setStatus_def)
    have nonneg: "0 \<le> statusPending ?m1" using Cons.prems(2) by simp
    have nz: "evs = [] \<Longrightarrow> pendingAfter (statusPending m + 1) evs \<noteq> 0"
      using Cons.prems(2) by simp
    from Cons.IH [OF out nonneg] nz show ?thesis
      unfolding run using Schedule by auto
  next
    case TimerFired
    let ?m1 = "m\<lparr>statusPending := statusPending m - 1,
        status := (if statusPending m - 1 = 0 then ''Score: '' @ string_of_int (score m)
                   else status m)\<rparr>"
    from Cons.prems TimerFired have pos: "0 < statusPending m"
      and out: "timersOutstanding (statusPending ?m1) evs"
      by simp_all
    have run: "statusRun IsWord e (ev # evs) (m, s) = statusRun IsWord e evs (?m1, s)"
      using TimerFired by (simp add: statusRun_def Update_msgResetStatus)
    have nonneg: "0 \<le> statusPending ?m1" using pos by simp
    note IH = Cons.IH [OF out nonneg]
    show ?thesis
    proof (cases "statusPending m - 1 = 0")
      case True
      then have out0: "timersOutstanding 0 evs" using out by simp
      have "pendingAfter 0 evs \<noteq> 0 \<Longrightarrow>
          lastScheduled (''Score: '' @ string_of_int (score m)) evs = lastScheduled (status m) evs"
        by (rule lastScheduled_irrelevant [OF out0])
      with IH True show ?thesis
        unfolding run using TimerFired by (cases "evs = []") auto
    next
      case False
      with IH show ?thesis
        unfolding run using TimerFired by auto
    qed
  qed
qed

lemmas ex_defs = guessedRow_def newModel_def numChars_def numGuesses_def arraysOk_def anyWord_def
  ioWith_def emptyStore_def zeroByte_def

text \<open>
  Claim C4. In a game in progress, \<^verbatim>\<open>enter\<close> on a row that is not complete, or on a
  complete row whose word the dictionary refuses, changes nothing but the status: the
  model after the step is the model before it with the status text replaced and the
  count of pending status resets raised by one, so the row, the column, the grid, the
  key states and the game-over flag are as before; the store is as before, its call log
  included, so neither \<^verbatim>\<open>CreateGame\<close> nor \<^verbatim>\<open>CreateGuess\<close> has been called; and the step
  schedules one status reset.
\<close>

theorem rejected_guess_changes_only_status:
  assumes "\<not> gameOver m"
    and "gridCol m \<noteq> int numChars \<or>
         (0 \<le> gridRow m \<and> gridRow m < int numGuesses \<and> \<not> IsWord (grid m ! nat (gridRow m)))"
  shows "Update IsWord e (KeyMsg KeyEnter runes) (m, s) =
     Inr ((m\<lparr>status := (if gridCol m \<noteq> int numChars
                           then ''Your guess must be a 5-letter word.''
                           else ''That's not a valid word.''),
              statusPending := statusPending m + 1\<rparr>, s), Some (Tick 1))"
  using assms
  by (auto simp: Update_def doAcceptGuess_def resetStatus_def setStatus_def Let_def)

theorem rejected_guess_changes_only_status_witness:
  "\<not> gameOver ((guessedRow ''CRANE'' ''SLA'')\<lparr>gridCol := 3\<rparr>) \<and>
   gridCol ((guessedRow ''CRANE'' ''SLA'')\<lparr>gridCol := 3\<rparr>) \<noteq> int numChars \<and>
   Update anyWord (ioWith [] True) (KeyMsg KeyEnter [])
     ((guessedRow ''CRANE'' ''SLA'')\<lparr>gridCol := 3\<rparr>, emptyStore) =
   Inr (((guessedRow ''CRANE'' ''SLA'')
           \<lparr>gridCol := 3, status := ''Your guess must be a 5-letter word.'', statusPending := 1\<rparr>,
         emptyStore), Some (Tick 1))"
proof -
  let ?m = "(guessedRow ''CRANE'' ''SLA'')\<lparr>gridCol := 3\<rparr>"
  have a: "\<not> gameOver ?m" by (simp add: ex_defs)
  have b: "gridCol ?m \<noteq> int numChars" by (simp add: ex_defs)
  from b have c: "gridCol ?m \<noteq> int numChars \<or>
         (0 \<le> gridRow ?m \<and> gridRow ?m < int numGuesses \<and> \<not> anyWord (grid ?m ! nat (gridRow ?m)))"
    by (rule disjI1)
  from rejected_guess_changes_only_status [where IsWord = anyWord and m = ?m
      and e = "ioWith [] True" and runes = "[]" and s = emptyStore, OF a c]
  show ?thesis using a b by (simp add: ex_defs)
qed



text \<open>
  Claim C6. Every \<^verbatim>\<open>msgResetStatus\<close> lowers the count of pending resets by one and sets
  the status to "Score: N" exactly when the count has become zero. Hence, along any
  sequence of scheduled transient statuses and timer events in which a timer fires only
  while a reset is outstanding, the count is the number of outstanding resets, and the
  status is the last scheduled text as long as a reset is outstanding and "Score: N"
  once none is: a reset that is not the last one outstanding never replaces a status.
\<close>

theorem status_timer_debounce:
  assumes "timersOutstanding (statusPending m) evs" and "0 \<le> statusPending m"
  shows "Update IsWord e msgResetStatus (m, s) =
       Inr ((m\<lparr>statusPending := statusPending m - 1,
                status := (if statusPending m - 1 = 0 then ''Score: '' @ string_of_int (score m)
                           else status m)\<rparr>, s), None) \<and>
     statusPending (fst (statusRun IsWord e evs (m, s))) = pendingAfter (statusPending m) evs \<and>
     status (fst (statusRun IsWord e evs (m, s))) =
       (if evs \<noteq> [] \<and> statusPending (fst (statusRun IsWord e evs (m, s))) = 0
        then ''Score: '' @ string_of_int (score m)
        else lastScheduled (status m) evs)"
  using statusRun_status [OF assms, of IsWord e s] Update_msgResetStatus [of IsWord e m s]
  by simp

theorem status_timer_debounce_witness:
  "timersOutstanding (statusPending newModel)
     [Schedule ''first'' 1, Schedule ''second'' 1, TimerFired, TimerFired] \<and>
   0 \<le> statusPending newModel \<and>
   status (fst (statusRun anyWord (ioWith [] True)
     [Schedule ''first'' 1, Schedule ''second'' 1, TimerFired] (newModel, emptyStore))) = ''second'' \<and>
   status (fst (statusRun anyWord (ioWith [] True)
     [Schedule ''first'' 1, Schedule ''second'' 1, TimerFired, TimerFired] (newModel, emptyStore))) =
     ''Score: '' @ string_of_int 0"
proof -
  have p: "statusPending newModel = 0" by (simp add: newModel_def)
  have sc: "score newModel = 0" by (simp add: newModel_def)
  have o3: "timersOutstanding (statusPending newModel) [Schedule ''first'' 1, Schedule ''second'' 1, TimerFired]"
    by (simp add: p)
  have o4: "timersOutstanding (statusPending newModel)
     [Schedule ''first'' 1, Schedule ''second'' 1, TimerFired, TimerFired]"
    by (simp add: p)
  have nn: "0 \<le> statusPending newModel" by (simp add: p)
  have a: "status (fst (statusRun anyWord (ioWith [] True)
     [Schedule ''first'' 1, Schedule ''second'' 1, TimerFired] (newModel, emptyStore))) = ''second''"
    using status_timer_debounce [where IsWord = anyWord and e = "ioWith [] True"
        and s = emptyStore, OF o3 nn]
    by (simp add: p)
  have b: "status (fst (statusRun anyWord (ioWith [] True)
     [Schedule ''first'' 1, Schedule ''second'' 1, TimerFired, TimerFired] (newModel, emptyStore))) =
     ''Score: '' @ string_of_int 0"
    using status_timer_debounce [where IsWord = anyWord and e = "ioWith [] True"
        and s = emptyStore, OF o4 nn]
    by (simp add: p sc)
  show ?thesis using o4 nn a b by blast
qed



section \<open>Evaluating concrete sessions\<close>

lemma list_update_Cons_numeral:
  "(x # xs)[numeral v := y] = x # xs[numeral v - 1 := y]"
  by (simp add: numeral_eq_Suc)

lemma fold_upt_5: "fold f [0..<5] s = f 4 (f 3 (f 2 (f 1 (f 0 s))))"
  by (simp add: eval_nat_numeral)

lemma newModel_explicit:
  "newModel =
     \<lparr>gameID = 0, gameOver = False, score = 0,
      answer = [CHR 0x00, CHR 0x00, CHR 0x00, CHR 0x00, CHR 0x00],
      status = [], statusPending = 0, windowHeight = 0, windowWidth = 0,
      grid = [[CHR 0x00, CHR 0x00, CHR 0x00, CHR 0x00, CHR 0x00],
              [CHR 0x00, CHR 0x00, CHR 0x00, CHR 0x00, CHR 0x00],
              [CHR 0x00, CHR 0x00, CHR 0x00, CHR 0x00, CHR 0x00],
              [CHR 0x00, CHR 0x00, CHR 0x00, CHR 0x00, CHR 0x00],
              [CHR 0x00, CHR 0x00, CHR 0x00, CHR 0x00, CHR 0x00],
              [CHR 0x00, CHR 0x00, CHR 0x00, CHR 0x00, CHR 0x00]],
      gridRow = 0, gridCol = 0, keyStates = Map.empty\<rparr>"
  by (simp add: newModel_def numChars_def numGuesses_def zeroByte_def eval_nat_numeral)

lemma freshGame_eq:
  "freshGame w =
     (newModel\<lparr>answer := copyBytes (answer newModel) w, status := ''Score: '' @ string_of_int 0\<rparr>,
      emptyStore\<lparr>calls := [GetTotalScoreCall True]\<rparr>)"
  by (simp add: freshGame_def Init_def doRestart_eq ioWith_def newModel_def emptyStore_def
      game_scores_def joinRows_def sqlSum_def scoreValue_def)

lemmas run_defs = typeWord_def freshGame_eq newModel_explicit copyBytes_def
  anyWord_def ioWith_def emptyStore_def isRestart_def
  Update_def doAcceptChar_def doAcceptGuess_def saveGuess_def CreateGame_def CreateGuess_def
  nextId_def resetStatus_def setStatus_def acceptKey_def keyStateOf_def maxKeyState_def Let_def
  doWin_eq doLoss_eq isAsciiUpper_def toAsciiUpper_def char_of_def
  numChars_def numGuesses_def list_update_Cons_numeral fold_upt_5

lemmas run_v1_defs = typeWord_v1_def ioWith_v1_def newModel_v1_def anyWord_def
  Init_v1_def withDb_def reset_def resetStatus_v1_def setStatus_v1_def reportError_def
  Update_v1_def doAcceptChar_v1_def doAcceptWord_def doWin_v1_def doLoss_v1_def
  acceptKey_v1_def keyStateOf_def addWin_def emptyDb_def Sequentially_def copyBytes_def
  isAsciiUpper_def toAsciiUpper_def char_of_def numChars_def numGuesses_def zeroByte_def Let_def
  list_update_Cons_numeral fold_upt_5 eval_nat_numeral

section \<open>The cursor stays within the grid\<close>

lemma length_copyBytes: "length (copyBytes dst src) = length dst"
  by (simp add: copyBytes_def)

lemma arraysOk_cong:
  "answer m' = answer m \<Longrightarrow> grid m' = grid m \<Longrightarrow> arraysOk m' = arraysOk m"
  by (simp add: arraysOk_def)

lemma sessionInv_resetStatus: "sessionInv (resetStatus m) = sessionInv m"
  by (simp add: sessionInv_def cursorInv_def arraysOk_def resetStatus_def)

lemma sessionInv_doRestart:
  assumes "arraysOk m"
  shows "sessionInv (fst (doRestart e (m, s)))"
  using assms
  by (simp add: doRestart_eq sessionInv_def cursorInv_def cursorOk_def arraysOk_def length_copyBytes
      numGuesses_def)

lemma sessionInv_doDeleteChar: "sessionInv m \<Longrightarrow> sessionInv (doDeleteChar m)"
  by (auto simp: doDeleteChar_def sessionInv_def cursorInv_def cursorOk_def arraysOk_def)

lemma list_all_update:
  "list_all P xs \<Longrightarrow> P x \<Longrightarrow> list_all P (xs[i := x])"
  using set_update_subset_insert [of xs i x] by (auto simp: list_all_iff)

lemma sessionInv_doAcceptChar:
  assumes "sessionInv m"
  shows "\<exists>m'. doAcceptChar ch m = Inr m' \<and> sessionInv m'"
proof (cases "gameOver m \<or> \<not> (gridRow m < int numGuesses \<and> gridCol m < int numChars) \<or>
    \<not> isAsciiUpper (toAsciiUpper ch)")
  case True
  then have "doAcceptChar ch m = Inr m" by (auto simp: doAcceptChar_def)
  with assms show ?thesis by simp
next
  case False
  from assms have c: "0 \<le> gridRow m" "0 \<le> gridCol m" and a: "arraysOk m"
    by (simp_all add: sessionInv_def cursorInv_def cursorOk_def)
  let ?m' = "m\<lparr>grid := (grid m)[nat (gridRow m) :=
                 (grid m ! nat (gridRow m))[nat (gridCol m) := char_of (toAsciiUpper ch)]],
               gridCol := gridCol m + 1\<rparr>"
  have eq: "doAcceptChar ch m = Inr ?m'"
    using False c by (simp add: doAcceptChar_def)
  have inrow: "nat (gridRow m) < length (grid m)"
    using False a c by (auto simp: arraysOk_def nat_less_iff)
  then have "length (grid m ! nat (gridRow m)) = numChars"
    using a by (simp add: arraysOk_def list_all_length)
  then have "arraysOk ?m'"
    using a by (simp add: arraysOk_def list_all_update)
  moreover have "cursorInv ?m'"
    using assms False by (auto simp: sessionInv_def cursorInv_def cursorOk_def)
  ultimately show ?thesis using eq by (simp add: sessionInv_def)
qed

lemma sessionInv_doAcceptGuess:
  assumes "sessionInv m"
  shows "\<exists>m' s' c. doAcceptGuess IsWord e (m, s) = Inr ((m', s'), c) \<and> sessionInv m'"
proof (cases "gameOver m")
  case True
  with assms show ?thesis by (simp add: doAcceptGuess_def)
next
  case False
  note ngo = this
  from assms False have row: "0 \<le> gridRow m" "gridRow m < int numGuesses"
    by (auto simp: sessionInv_def cursorInv_def cursorOk_def)
  show ?thesis
  proof (cases "gridCol m \<noteq> int numChars \<or> \<not> IsWord (grid m ! nat (gridRow m))")
    case True
    then have "\<exists>c. doAcceptGuess IsWord e (m, s) =
        Inr ((m\<lparr>status := c, statusPending := statusPending m + 1\<rparr>, s), Some (Tick 1))"
      using ngo row by (auto simp: doAcceptGuess_def setStatus_def Let_def)
    moreover have "sessionInv (m\<lparr>status := c, statusPending := statusPending m + 1\<rparr>)" for c
      using assms by (simp add: sessionInv_def cursorInv_def arraysOk_def)
    ultimately show ?thesis by auto
  next
    case acc: False
    let ?guess = "grid m ! nat (gridRow m)"
    obtain err m1 s1 where sg: "saveGuess e ?guess (m, s) = (err, m1, s1)"
      by (cases "saveGuess e ?guess (m, s)")
    from saveGuess_model [of e ?guess m s] sg obtain g where m1: "m1 = m\<lparr>gameID := g\<rparr>"
      by auto
    obtain success ks where
      fo: "fold (acceptKey (answer m1) ?guess) [0..<numChars] (True, keyStates m1) = (success, ks)"
      by (cases "fold (acceptKey (answer m1) ?guess) [0..<numChars] (True, keyStates m1)")
    let ?m2 = "m1\<lparr>keyStates := ks, gridRow := gridRow m1 + 1, gridCol := 0\<rparr>"
    have eq: "doAcceptGuess IsWord e (m, s) =
       (if success then Inr (doWin e (?m2, s1))
        else if gridRow m1 + 1 = int numGuesses then Inr (doLoss e (?m2, s1))
        else Inr ((?m2, s1), None))"
      using ngo acc row sg fo by (intro doAcceptGuess_accepted [where err = err]) simp_all
    have ar: "arraysOk ?m2" using assms m1 by (simp add: sessionInv_def arraysOk_def)
    show ?thesis
    proof (cases success)
      case True
      have "sessionInv (fst (fst (doWin e (?m2, s1))))"
        using assms m1 row ar
        by (simp add: doWin_eq sessionInv_def cursorInv_def cursorOk_def arraysOk_def)
      with True eq show ?thesis by (simp add: doWin_eq)
    next
      case False
      show ?thesis
      proof (cases "gridRow m1 + 1 = int numGuesses")
        case True
        have "sessionInv (fst (fst (doLoss e (?m2, s1))))"
          using assms m1 row ar True
          by (simp add: doLoss_eq sessionInv_def cursorInv_def cursorOk_def arraysOk_def)
        with True False eq show ?thesis by (simp add: doLoss_eq)
      next
        case nl: False
        have "sessionInv ?m2"
          using assms m1 row ar nl ngo
          by (simp add: sessionInv_def cursorInv_def cursorOk_def arraysOk_def)
        with nl False eq show ?thesis by simp
      qed
    qed
  qed
qed

lemma sessionInv_Update:
  assumes "sessionInv m"
  shows "\<exists>m' s' c. Update IsWord e ev (m, s) = Inr ((m', s'), c) \<and> sessionInv m'"
proof (cases ev)
  case msgResetStatus
  have "sessionInv (m\<lparr>statusPending := p, status := t\<rparr>)" for p t
    using assms by (simp add: sessionInv_def cursorInv_def arraysOk_def)
  then show ?thesis using msgResetStatus by (simp add: Update_msgResetStatus)
next
  case (KeyMsg k runes)
  have inv0: "sessionInv (resetStatus m)" using assms by (simp add: sessionInv_resetStatus)
  then have ar0: "arraysOk (resetStatus m)" by (simp add: sessionInv_def)
  show ?thesis
  proof (cases k)
    case KeyCtrlC
    with KeyMsg inv0 show ?thesis by (simp add: Update_def)
  next
    case KeyCtrlR
    with KeyMsg sessionInv_doRestart [OF ar0, of e s] show ?thesis
      by (cases "doRestart e (resetStatus m, s)") (simp add: Update_def)
  next
    case KeyBackspace
    with KeyMsg sessionInv_doDeleteChar [OF inv0] show ?thesis by (simp add: Update_def)
  next
    case KeyEnter
    show ?thesis
    proof (cases "gameOver (resetStatus m)")
      case True
      with KeyMsg KeyEnter sessionInv_doRestart [OF ar0, of e s] show ?thesis
        by (cases "doRestart e (resetStatus m, s)") (simp add: Update_def)
    next
      case False
      with KeyMsg KeyEnter sessionInv_doAcceptGuess [OF inv0, of IsWord e s] show ?thesis
        by (simp add: Update_def)
    qed
  next
    case KeyRunes
    show ?thesis
    proof (cases "length runes = 1")
      case True
      from sessionInv_doAcceptChar [OF inv0, of "runes ! 0"] obtain m'
        where "doAcceptChar (runes ! 0) (resetStatus m) = Inr m'" "sessionInv m'" by blast
      with KeyMsg KeyRunes True show ?thesis by (simp add: Update_def)
    next
      case False
      with KeyMsg KeyRunes inv0 show ?thesis by (simp add: Update_def)
    qed
  next
    case KeyOther
    with KeyMsg inv0 show ?thesis by (simp add: Update_def)
  qed
next
  case (WindowSizeMsg w h)
  have "sessionInv (doResize w h m)"
    using assms by (simp add: doResize_def sessionInv_def cursorInv_def arraysOk_def)
  with WindowSizeMsg show ?thesis by (simp add: Update_def)
next
  case OtherMsg
  with assms show ?thesis by (simp add: Update_def)
qed

lemma sessionInv_runSession:
  assumes "sessionInv m"
  shows "\<exists>m' s'. runSession IsWord steps (m, s) = Inr (m', s') \<and> sessionInv m'"
  using assms
proof (induction steps arbitrary: m s)
  case Nil
  then show ?case by simp
next
  case (Cons step steps)
  from sessionInv_Update [OF Cons.prems, of IsWord "fst step" "snd step" s]
  obtain m1 s1 c where u: "Update IsWord (fst step) (snd step) (m, s) = Inr ((m1, s1), c)"
    and i: "sessionInv m1" by blast
  from Cons.IH [OF i, of s1] u show ?case by simp
qed

lemma arraysOk_newModel: "arraysOk (newModel\<lparr>windowWidth := w, windowHeight := h\<rparr>)"
  by (simp add: arraysOk_def newModel_def list_all_length)

lemmas inv_v1_defs = sessionInv_v1_def cursorInv_v1_def cursorOk_def arraysOk_v1_def

lemma sessionInv_v1_status:
  "sessionInv_v1 (m\<lparr>status_v1 := t\<rparr>) = sessionInv_v1 m"
  "sessionInv_v1 (m\<lparr>statusPending_v1 := p\<rparr>) = sessionInv_v1 m"
  "sessionInv_v1 (m\<lparr>errors_v1 := es\<rparr>) = sessionInv_v1 m"
  "sessionInv_v1 (m\<lparr>score_v1 := sc\<rparr>) = sessionInv_v1 m"
  "sessionInv_v1 (m\<lparr>keyStates_v1 := ks\<rparr>) = sessionInv_v1 m"
  "sessionInv_v1 (m\<lparr>height_v1 := h\<rparr>) = sessionInv_v1 m"
  "sessionInv_v1 (m\<lparr>width_v1 := w\<rparr>) = sessionInv_v1 m"
  by (simp_all add: inv_v1_defs)

lemma sessionInv_v1_reset:
  assumes "arraysOk_v1 m"
  shows "sessionInv_v1 (reset e m)"
  using assms
  by (simp add: reset_def resetStatus_v1_def inv_v1_defs length_copyBytes numGuesses_def)

lemma withDb_inv:
  assumes "sessionInv_v1 m"
    and "\<And>d. \<exists>d' m1. f (d, m) = Inr (d', m1) \<and> sessionInv_v1 m1 \<and> gameOver_v1 m1 = gameOver_v1 m"
  shows "\<exists>m' disk' c. withDb e f (m, disk) = Inr ((m', disk'), c) \<and> sessionInv_v1 m' \<and>
           gameOver_v1 m' = gameOver_v1 m"
proof (cases "loadOk e")
  case False
  with assms(1) show ?thesis
    by (simp add: withDb_def reportError_def setStatus_v1_def sessionInv_v1_status)
next
  case True
  from assms(2) [of "case disk of None \<Rightarrow> emptyDb | Some d \<Rightarrow> d"]
  obtain d' m1 where f: "f (case disk of None \<Rightarrow> emptyDb | Some d \<Rightarrow> d, m) = Inr (d', m1)"
    and i: "sessionInv_v1 m1" and g: "gameOver_v1 m1 = gameOver_v1 m" by blast
  with True show ?thesis
    by (cases "saveOk e")
      (simp_all add: withDb_def reportError_def setStatus_v1_def sessionInv_v1_status)
qed

lemma sessionInv_v1_Init:
  assumes "arraysOk_v1 m" "cursorInv_v1 m" "\<not> gameOver_v1 m"
  shows "\<exists>m' disk' c. Init_v1 e (m, disk) = Inr ((m', disk'), c) \<and> sessionInv_v1 m'"
proof -
  let ?m = "m\<lparr>keyStates_v1 := Map.empty\<rparr>"
  have i: "sessionInv_v1 ?m" using assms by (simp add: inv_v1_defs)
  let ?f = "\<lambda>(d, m). Inr (d, reset e (m\<lparr>score_v1 := db_score d\<rparr>)) :: panic + db \<times> model_v1"
  have "\<exists>d' m1. ?f (d, ?m) = Inr (d', m1) \<and>
      sessionInv_v1 m1 \<and> gameOver_v1 m1 = gameOver_v1 ?m" for d
    using assms sessionInv_v1_reset [of "?m\<lparr>score_v1 := db_score d\<rparr>" e]
    by (simp add: arraysOk_v1_def reset_def resetStatus_v1_def)
  from withDb_inv [where f = ?f and e = e and disk = disk, OF i this] show ?thesis
    by (auto simp: Init_v1_def)
qed

lemma sessionInv_v1_doWin:
  assumes "arraysOk_v1 m" "1 \<le> gridRow_v1 m" "gridRow_v1 m \<le> int numGuesses"
    "0 \<le> gridCol_v1 m" "gridCol_v1 m \<le> int numChars"
  shows "\<exists>m' disk' c. doWin_v1 e (m, disk) = Inr ((m', disk'), c) \<and> sessionInv_v1 m'"
proof -
  let ?m = "m\<lparr>gameOver_v1 := True\<rparr>"
  have i: "sessionInv_v1 ?m" using assms by (simp add: inv_v1_defs)
  let ?f = "\<lambda>(d, m). case addWin (gridRow_v1 m) d of
                          Inl p \<Rightarrow> Inl p
                        | Inr d' \<Rightarrow> Inr (d', m\<lparr>score_v1 := db_score d'\<rparr>)"
  have "\<exists>d' m1. ?f (d, ?m) = Inr (d', m1) \<and>
      sessionInv_v1 m1 \<and> gameOver_v1 m1 = gameOver_v1 ?m" for d
    using assms i by (simp add: addWin_def sessionInv_v1_status)
  from withDb_inv [where f = ?f and e = e and disk = disk, OF i this]
  obtain m' disk' c where "withDb e ?f (?m, disk) = Inr ((m', disk'), c)"
    and "sessionInv_v1 m'" by blast
  then show ?thesis
    by (simp add: doWin_v1_def setStatus_v1_def sessionInv_v1_status)
qed

lemma sessionInv_v1_doLoss:
  assumes "arraysOk_v1 m" "1 \<le> gridRow_v1 m" "gridRow_v1 m \<le> int numGuesses"
    "0 \<le> gridCol_v1 m" "gridCol_v1 m \<le> int numChars"
  shows "\<exists>m' disk' c. doLoss_v1 e (m, disk) = Inr ((m', disk'), c) \<and> sessionInv_v1 m'"
proof -
  let ?m = "m\<lparr>gameOver_v1 := True\<rparr>"
  have i: "sessionInv_v1 ?m" using assms by (simp add: inv_v1_defs)
  let ?f = "\<lambda>(d, m). Inr (addLoss d, m\<lparr>score_v1 := db_score (addLoss d)\<rparr>) :: panic + db \<times> model_v1"
  have "\<exists>d' m1. ?f (d, ?m) = Inr (d', m1) \<and>
      sessionInv_v1 m1 \<and> gameOver_v1 m1 = gameOver_v1 ?m" for d
    using i by (simp add: sessionInv_v1_status)
  from withDb_inv [where f = ?f and e = e and disk = disk, OF i this]
  obtain m' disk' c where "withDb e ?f (?m, disk) = Inr ((m', disk'), c)"
    and "sessionInv_v1 m'" by blast
  then show ?thesis
    by (simp add: doLoss_v1_def setStatus_v1_def sessionInv_v1_status Let_def)
qed

lemma sessionInv_v1_doAcceptChar:
  assumes "sessionInv_v1 m"
  shows "\<exists>m'. doAcceptChar_v1 ch m = Inr m' \<and> sessionInv_v1 m'"
proof (cases "gameOver_v1 m \<or> \<not> (gridRow_v1 m < int numGuesses \<and> gridCol_v1 m < int numChars) \<or>
    \<not> isAsciiUpper (toAsciiUpper ch)")
  case True
  then have "doAcceptChar_v1 ch m = Inr m" by (auto simp: doAcceptChar_v1_def)
  with assms show ?thesis by simp
next
  case False
  from assms have c: "0 \<le> gridRow_v1 m" "0 \<le> gridCol_v1 m" and a: "arraysOk_v1 m"
    by (simp_all add: inv_v1_defs)
  let ?m' = "m\<lparr>grid_v1 := (grid_v1 m)[nat (gridRow_v1 m) :=
                 (grid_v1 m ! nat (gridRow_v1 m))[nat (gridCol_v1 m) := char_of (toAsciiUpper ch)]],
               gridCol_v1 := gridCol_v1 m + 1\<rparr>"
  have eq: "doAcceptChar_v1 ch m = Inr ?m'"
    using False c by (simp add: doAcceptChar_v1_def)
  have inrow: "nat (gridRow_v1 m) < length (grid_v1 m)"
    using False a c by (auto simp: arraysOk_v1_def nat_less_iff)
  then have "length (grid_v1 m ! nat (gridRow_v1 m)) = numChars"
    using a by (simp add: arraysOk_v1_def list_all_length)
  then have "arraysOk_v1 ?m'"
    using a by (simp add: arraysOk_v1_def list_all_update)
  moreover have "cursorInv_v1 ?m'"
    using assms False by (auto simp: inv_v1_defs)
  ultimately show ?thesis using eq by (simp add: sessionInv_v1_def)
qed

lemma sessionInv_v1_doAcceptWord:
  assumes "sessionInv_v1 m"
  shows "\<exists>m' disk' c. doAcceptWord isWord e (m, disk) = Inr ((m', disk'), c) \<and> sessionInv_v1 m'"
proof (cases "gameOver_v1 m")
  case True
  with assms show ?thesis by (simp add: doAcceptWord_def)
next
  case False
  note ngo = this
  from assms False have row: "0 \<le> gridRow_v1 m" "gridRow_v1 m < int numGuesses"
    and col: "0 \<le> gridCol_v1 m" "gridCol_v1 m \<le> int numChars" and ar: "arraysOk_v1 m"
    by (auto simp: inv_v1_defs)
  show ?thesis
  proof (cases "gridCol_v1 m \<noteq> int numChars \<or> \<not> isWord (grid_v1 m ! nat (gridRow_v1 m))")
    case True
    then have "\<exists>t. doAcceptWord isWord e (m, disk) =
        Inr ((m\<lparr>status_v1 := t, statusPending_v1 := statusPending_v1 m + 1\<rparr>, disk), Some (Tick 1))"
      using ngo row by (auto simp: doAcceptWord_def setStatus_v1_def Let_def)
    with assms show ?thesis by (auto simp: sessionInv_v1_status)
  next
    case acc: False
    let ?word = "grid_v1 m ! nat (gridRow_v1 m)"
    obtain success ks where
      fo: "fold (acceptKey_v1 (word_v1 m) ?word) [0..<numChars] (True, keyStates_v1 m) = (success, ks)"
      by (cases "fold (acceptKey_v1 (word_v1 m) ?word) [0..<numChars] (True, keyStates_v1 m)")
    let ?m2 = "m\<lparr>keyStates_v1 := ks, gridRow_v1 := gridRow_v1 m + 1, gridCol_v1 := 0\<rparr>"
    have eq: "doAcceptWord isWord e (m, disk) =
       (if success then doWin_v1 e (?m2, disk)
        else if gridRow_v1 m + 1 = int numGuesses then doLoss_v1 e (?m2, disk)
        else Inr ((?m2, disk), None))"
      using ngo acc row fo by (simp add: doAcceptWord_def Let_def)
    have ar2: "arraysOk_v1 ?m2" using ar by (simp add: arraysOk_v1_def)
    have r2: "1 \<le> gridRow_v1 ?m2" "gridRow_v1 ?m2 \<le> int numGuesses"
      "0 \<le> gridCol_v1 ?m2" "gridCol_v1 ?m2 \<le> int numChars"
      using row by simp_all
    show ?thesis
    proof (cases success)
      case True
      with eq sessionInv_v1_doWin [OF ar2 r2, of e disk] show ?thesis by simp
    next
      case False
      show ?thesis
      proof (cases "gridRow_v1 m + 1 = int numGuesses")
        case True
        with False eq sessionInv_v1_doLoss [OF ar2 r2, of e disk] show ?thesis by simp
      next
        case nl: False
        have "sessionInv_v1 ?m2"
          using ar2 row nl ngo by (simp add: inv_v1_defs)
        with nl False eq show ?thesis by simp
      qed
    qed
  qed
qed

lemma sessionInv_v1_Update:
  assumes "sessionInv_v1 m"
  shows "\<exists>m' disk' c. Update_v1 isWord e ev (m, disk) = Inr ((m', disk'), c) \<and> sessionInv_v1 m'"
proof (cases ev)
  case msgResetStatus
  with assms show ?thesis
    by (simp add: Update_v1_def Let_def resetStatus_v1_def sessionInv_v1_status)
next
  case (KeyMsg k runes)
  have inv0: "sessionInv_v1 (resetStatus_v1 m)"
    using assms by (simp add: resetStatus_v1_def sessionInv_v1_status)
  then have ar0: "arraysOk_v1 (resetStatus_v1 m)" by (simp add: sessionInv_v1_def)
  show ?thesis
  proof (cases k)
    case KeyCtrlC
    with KeyMsg inv0 show ?thesis by (simp add: Update_v1_def)
  next
    case KeyCtrlR
    with KeyMsg sessionInv_v1_reset [OF ar0, of e] show ?thesis by (simp add: Update_v1_def)
  next
    case KeyBackspace
    have "sessionInv_v1 (doDeleteChar_v1 (resetStatus_v1 m))"
      using inv0 by (auto simp: doDeleteChar_v1_def inv_v1_defs)
    with KeyMsg KeyBackspace show ?thesis by (simp add: Update_v1_def)
  next
    case KeyEnter
    show ?thesis
    proof (cases "gameOver_v1 (resetStatus_v1 m)")
      case True
      with KeyMsg KeyEnter sessionInv_v1_reset [OF ar0, of e] show ?thesis
        by (simp add: Update_v1_def)
    next
      case False
      with KeyMsg KeyEnter sessionInv_v1_doAcceptWord [OF inv0, of isWord e disk] show ?thesis
        by (simp add: Update_v1_def)
    qed
  next
    case KeyRunes
    show ?thesis
    proof (cases "length runes = 1")
      case True
      from sessionInv_v1_doAcceptChar [OF inv0, of "runes ! 0"] obtain m'
        where "doAcceptChar_v1 (runes ! 0) (resetStatus_v1 m) = Inr m'" "sessionInv_v1 m'" by blast
      with KeyMsg KeyRunes True show ?thesis by (simp add: Update_v1_def)
    next
      case False
      with KeyMsg KeyRunes inv0 show ?thesis by (simp add: Update_v1_def)
    qed
  next
    case KeyOther
    with KeyMsg inv0 show ?thesis by (simp add: Update_v1_def)
  qed
next
  case (WindowSizeMsg w h)
  with assms show ?thesis
    by (simp add: Update_v1_def doResize_v1_def sessionInv_v1_status)
next
  case OtherMsg
  with assms show ?thesis by (simp add: Update_v1_def)
qed

lemma sessionInv_v1_runSession:
  assumes "sessionInv_v1 m"
  shows "\<exists>m' disk'. runSession_v1 isWord steps (m, disk) = Inr (m', disk') \<and> sessionInv_v1 m'"
  using assms
proof (induction steps arbitrary: m disk)
  case Nil
  then show ?case by simp
next
  case (Cons step steps)
  from sessionInv_v1_Update [OF Cons.prems, of isWord "fst step" "snd step" disk]
  obtain m1 d1 c where u: "Update_v1 isWord (fst step) (snd step) (m, disk) = Inr ((m1, d1), c)"
    and i: "sessionInv_v1 m1" by blast
  from Cons.IH [OF i, of d1] u show ?case by simp
qed

lemma sessionInv_v1_start:
  "\<exists>m0 disk0 c. Init_v1 e (newModel_v1 w h, disk) = Inr ((m0, disk0), c) \<and> sessionInv_v1 m0"
  by (rule sessionInv_v1_Init)
    (simp_all add: newModel_v1_def inv_v1_defs list_all_length numGuesses_def)

lemma sessionInv_start:
  "sessionInv (fst (Init e (newModel\<lparr>windowWidth := w, windowHeight := h\<rparr>, s)))"
  unfolding Init_def by (rule sessionInv_doRestart) (rule arraysOk_newModel)

lemma win_run:
  "\<exists>m' s'. runSession anyWord (typeWord True ''CRANE'')
       (Init (ioWith ''CRANE'' True) (newModel\<lparr>windowWidth := 80, windowHeight := 24\<rparr>, emptyStore)) =
       Inr (m', s') \<and> gameOver m' \<and> gridRow m' = 1"
  by (simp add: run_defs Init_def doRestart_eq game_scores_def joinRows_def)

lemma win_run_v1:
  "\<exists>m0 disk0 c m' disk'.
      Init_v1 (ioWith_v1 ''CRANE'' True) (newModel_v1 80 24, None) = Inr ((m0, disk0), c) \<and>
      runSession_v1 anyWord (typeWord_v1 True ''CRANE'') (m0, disk0) = Inr (m', disk') \<and>
      gameOver_v1 m' \<and> gridRow_v1 m' = 1 \<and> disk' = Some [0, 1, 0, 0, 0, 0, 0]"
  by (simp add: run_v1_defs)

text \<open>
  Claim C9. From the initial state of a session, whatever the window size, the store and
  the dictionary, every sequence of messages is processed without a panic, and in the
  state it leads to the column is between 0 and 5, the row between 0 and 6, the row is
  below 6 unless the game is over, the row is at least 1 when the game is over, and the
  grid has its 6 rows of 5 cells. A panic is what an index outside the grid would raise
  in \<^verbatim>\<open>doAcceptChar\<close> and \<^verbatim>\<open>doAcceptGuess\<close>, and what \<^verbatim>\<open>addWin\<close> raises on a number of
  guesses outside 1..6. The second half states the same of the earlier generation of
  the session, which records a win with \<^verbatim>\<open>addWin(m.gridRow)\<close>.
\<close>

theorem cursor_stays_in_grid:
  "(\<exists>m' s'. runSession IsWord steps (Init e (newModel\<lparr>windowWidth := w, windowHeight := h\<rparr>, s)) =
        Inr (m', s') \<and>
      0 \<le> gridCol m' \<and> gridCol m' \<le> 5 \<and> 0 \<le> gridRow m' \<and> gridRow m' \<le> 6 \<and>
      (gameOver m' \<or> gridRow m' < 6) \<and> (1 \<le> gridRow m' \<or> \<not> gameOver m') \<and>
      length (grid m') = 6 \<and> list_all (\<lambda>row. length row = 5) (grid m')) \<and>
   (\<exists>m0 disk0 c m' disk'.
      Init_v1 e' (newModel_v1 w h, disk) = Inr ((m0, disk0), c) \<and>
      runSession_v1 isWord steps' (m0, disk0) = Inr (m', disk') \<and>
      0 \<le> gridCol_v1 m' \<and> gridCol_v1 m' \<le> 5 \<and> 0 \<le> gridRow_v1 m' \<and> gridRow_v1 m' \<le> 6 \<and>
      (gameOver_v1 m' \<or> gridRow_v1 m' < 6) \<and> (1 \<le> gridRow_v1 m' \<or> \<not> gameOver_v1 m') \<and>
      length (grid_v1 m') = 6 \<and> list_all (\<lambda>row. length row = 5) (grid_v1 m'))"
proof
  let ?ms = "Init e (newModel\<lparr>windowWidth := w, windowHeight := h\<rparr>, s)"
  have "sessionInv (fst ?ms)" by (rule sessionInv_start)
  from sessionInv_runSession [where IsWord = IsWord and steps = steps and s = "snd ?ms", OF this]
  obtain m' s' where "runSession IsWord steps ?ms = Inr (m', s')" and "sessionInv m'"
    by auto
  then show "\<exists>m' s'. runSession IsWord steps ?ms = Inr (m', s') \<and>
      0 \<le> gridCol m' \<and> gridCol m' \<le> 5 \<and> 0 \<le> gridRow m' \<and> gridRow m' \<le> 6 \<and>
      (gameOver m' \<or> gridRow m' < 6) \<and> (1 \<le> gridRow m' \<or> \<not> gameOver m') \<and>
      length (grid m') = 6 \<and> list_all (\<lambda>row. length row = 5) (grid m')"
    by (auto simp: sessionInv_def cursorInv_def cursorOk_def arraysOk_def numChars_def numGuesses_def)
next
  from sessionInv_v1_start [of e' w h disk]
  obtain m0 disk0 c where i: "Init_v1 e' (newModel_v1 w h, disk) = Inr ((m0, disk0), c)"
    and inv: "sessionInv_v1 m0" by blast
  from sessionInv_v1_runSession [OF inv, of isWord steps' disk0]
  obtain m' disk' where "runSession_v1 isWord steps' (m0, disk0) = Inr (m', disk')"
    and "sessionInv_v1 m'" by blast
  with i show "\<exists>m0 disk0 c m' disk'.
      Init_v1 e' (newModel_v1 w h, disk) = Inr ((m0, disk0), c) \<and>
      runSession_v1 isWord steps' (m0, disk0) = Inr (m', disk') \<and>
      0 \<le> gridCol_v1 m' \<and> gridCol_v1 m' \<le> 5 \<and> 0 \<le> gridRow_v1 m' \<and> gridRow_v1 m' \<le> 6 \<and>
      (gameOver_v1 m' \<or> gridRow_v1 m' < 6) \<and> (1 \<le> gridRow_v1 m' \<or> \<not> gameOver_v1 m') \<and>
      length (grid_v1 m') = 6 \<and> list_all (\<lambda>row. length row = 5) (grid_v1 m')"
    by (auto simp: inv_v1_defs numChars_def numGuesses_def)
qed

theorem cursor_stays_in_grid_witness:
  "(\<exists>m' s'. runSession anyWord (typeWord True ''CRANE'')
       (Init (ioWith ''CRANE'' True) (newModel\<lparr>windowWidth := 80, windowHeight := 24\<rparr>, emptyStore)) =
       Inr (m', s') \<and> gameOver m' \<and> 1 \<le> gridRow m' \<and> gridRow m' \<le> 6 \<and>
       0 \<le> gridCol m' \<and> gridCol m' \<le> 5) \<and>
   (\<exists>m0 disk0 c m' disk'.
      Init_v1 (ioWith_v1 ''CRANE'' True) (newModel_v1 80 24, None) = Inr ((m0, disk0), c) \<and>
      runSession_v1 anyWord (typeWord_v1 True ''CRANE'') (m0, disk0) = Inr (m', disk') \<and>
      gameOver_v1 m' \<and> 1 \<le> gridRow_v1 m' \<and> gridRow_v1 m' \<le> 6 \<and>
      0 \<le> gridCol_v1 m' \<and> gridCol_v1 m' \<le> 5)"
proof -
  note inst = cursor_stays_in_grid [where IsWord = anyWord and steps = "typeWord True ''CRANE''"
      and e = "ioWith ''CRANE'' True" and w = 80 and h = 24 and s = emptyStore
      and e' = "ioWith_v1 ''CRANE'' True" and disk = None and isWord = anyWord
      and steps' = "typeWord_v1 True ''CRANE''"]
  from inst obtain m' s' where
    r: "runSession anyWord (typeWord True ''CRANE'')
       (Init (ioWith ''CRANE'' True) (newModel\<lparr>windowWidth := 80, windowHeight := 24\<rparr>, emptyStore)) =
       Inr (m', s')"
    and b: "0 \<le> gridCol m'" "gridCol m' \<le> 5" "gridRow m' \<le> 6" "1 \<le> gridRow m' \<or> \<not> gameOver m'"
    by blast
  from win_run r have go: "gameOver m'" by auto
  with b have n: "1 \<le> gridRow m'" by blast
  from inst obtain m0 disk0 c m1 disk1 where
    i1: "Init_v1 (ioWith_v1 ''CRANE'' True) (newModel_v1 80 24, None) = Inr ((m0, disk0), c)"
    and r1: "runSession_v1 anyWord (typeWord_v1 True ''CRANE'') (m0, disk0) = Inr (m1, disk1)"
    and b1: "0 \<le> gridCol_v1 m1" "gridCol_v1 m1 \<le> 5" "gridRow_v1 m1 \<le> 6"
      "1 \<le> gridRow_v1 m1 \<or> \<not> gameOver_v1 m1"
    by blast
  from win_run_v1 i1 r1 have go1: "gameOver_v1 m1" by auto
  with b1 have n1: "1 \<le> gridRow_v1 m1" by blast
  from r go n b have A: "\<exists>m' s'. runSession anyWord (typeWord True ''CRANE'')
       (Init (ioWith ''CRANE'' True) (newModel\<lparr>windowWidth := 80, windowHeight := 24\<rparr>, emptyStore)) =
       Inr (m', s') \<and> gameOver m' \<and> 1 \<le> gridRow m' \<and> gridRow m' \<le> 6 \<and>
       0 \<le> gridCol m' \<and> gridCol m' \<le> 5" by blast
  from i1 r1 go1 n1 b1 have B: "\<exists>m0 disk0 c m' disk'.
      Init_v1 (ioWith_v1 ''CRANE'' True) (newModel_v1 80 24, None) = Inr ((m0, disk0), c) \<and>
      runSession_v1 anyWord (typeWord_v1 True ''CRANE'') (m0, disk0) = Inr (m', disk') \<and>
      gameOver_v1 m' \<and> 1 \<le> gridRow_v1 m' \<and> gridRow_v1 m' \<le> 6 \<and>
      0 \<le> gridCol_v1 m' \<and> gridCol_v1 m' \<le> 5" by blast
  from A B show ?thesis ..
qed

section \<open>The game identity is created lazily\<close>

lemma createGameOutcomes_append:
  "createGameOutcomes (xs @ ys) = createGameOutcomes xs @ createGameOutcomes ys"
  by (induction xs rule: createGameOutcomes.induct) simp_all

lemma createGuessIds_append:
  "createGuessIds (xs @ ys) = createGuessIds xs @ createGuessIds ys"
  by (induction xs rule: createGuessIds.induct) simp_all

lemma fold_max_ge: "(a::int) \<le> fold max ids a"
proof (induction ids arbitrary: a)
  case Nil
  then show ?case by simp
next
  case (Cons i ids)
  have "a \<le> max i a" by simp
  also have "\<dots> \<le> fold max ids (max i a)" by (rule Cons.IH)
  finally show ?case by simp
qed

lemma nextId_pos: "1 \<le> nextId ids"
  using fold_max_ge [of 0 ids] by (simp add: nextId_def)

lemma saveGuess_effect:
  assumes "saveGuess e w (m, s) = (err, m1, s1)"
  shows "(gameID m \<noteq> 0 \<and> m1 = m \<and> games s1 = games s \<and>
            calls s1 = calls s @ [CreateGuessCall (gameID m) w (createGuessOk e)]) \<or>
         (gameID m = 0 \<and> m1 = m \<and> games s1 = games s \<and>
            calls s1 = calls s @ [CreateGameCall (answer m) False]) \<or>
         (gameID m = 0 \<and> (\<exists>g. game_id g \<noteq> 0 \<and> m1 = m\<lparr>gameID := game_id g\<rparr> \<and>
            games s1 = games s @ [g] \<and>
            calls s1 = calls s @ [CreateGameCall (answer m) True,
                                  CreateGuessCall (game_id g) w (createGuessOk e)]))"
proof (cases "gameID m = 0")
  case False
  with assms show ?thesis
    by (cases "createGuessOk e") (auto simp: saveGuess_def CreateGuess_def Let_def)
next
  case True
  show ?thesis
  proof (cases "createGameOk e")
    case False
    with True assms show ?thesis by (auto simp: saveGuess_def CreateGame_def)
  next
    case ok: True
    let ?g = "Game (nextId (map game_id (games s))) (answer m)"
    have nz: "game_id ?g \<noteq> 0" using nextId_pos [of "map game_id (games s)"] by simp
    from True ok assms have "m1 = m\<lparr>gameID := game_id ?g\<rparr> \<and> games s1 = games s @ [?g] \<and>
            calls s1 = calls s @ [CreateGameCall (answer m) True,
                                  CreateGuessCall (game_id ?g) w (createGuessOk e)]"
      by (cases "createGuessOk e") (auto simp: saveGuess_def CreateGame_def CreateGuess_def Let_def)
    with nz True show ?thesis by blast
  qed
qed

lemma gameFacts_saveGuess:
  assumes "gameFacts m new gs" and "saveGuess e w (m, s) = (err, m1, s1)"
    and "calls s = calls s0 @ new" "games s = games s0 @ gs"
  shows "\<exists>new' gs'. calls s1 = calls s0 @ new' \<and> games s1 = games s0 @ gs' \<and>
           gameFacts (m1\<lparr>gridRow := gridRow m1 + 1\<rparr>) new' gs'"
proof -
  from saveGuess_effect [OF assms(2)] consider
    (reuse) "gameID m \<noteq> 0" "m1 = m" "games s1 = games s"
      "calls s1 = calls s @ [CreateGuessCall (gameID m) w (createGuessOk e)]"
  | (failed) "gameID m = 0" "m1 = m" "games s1 = games s"
      "calls s1 = calls s @ [CreateGameCall (answer m) False]"
  | (created) g where "gameID m = 0" "game_id g \<noteq> 0" "m1 = m\<lparr>gameID := game_id g\<rparr>"
      "games s1 = games s @ [g]"
      "calls s1 = calls s @ [CreateGameCall (answer m) True,
                             CreateGuessCall (game_id g) w (createGuessOk e)]"
    by blast
  then show ?thesis
  proof cases
    case reuse
    have "gameFacts (m1\<lparr>gridRow := gridRow m1 + 1\<rparr>)
            (new @ [CreateGuessCall (gameID m) w (createGuessOk e)]) gs"
      using assms(1) reuse(1,2)
      by (simp add: gameFacts_def createGameOutcomes_append createGuessIds_append)
    with reuse assms(3,4) show ?thesis by auto
  next
    case failed
    have "gameFacts (m1\<lparr>gridRow := gridRow m1 + 1\<rparr>)
            (new @ [CreateGameCall (answer m) False]) gs"
      using assms(1) failed(1,2)
      by (simp add: gameFacts_def createGameOutcomes_append createGuessIds_append butlast_append)
    with failed assms(3,4) show ?thesis by auto
  next
    case created
    have "gameFacts (m1\<lparr>gridRow := gridRow m1 + 1\<rparr>)
            (new @ [CreateGameCall (answer m) True, CreateGuessCall (game_id g) w (createGuessOk e)])
            (gs @ [g])"
      using assms(1) created(1,2,3)
      by (simp add: gameFacts_def createGameOutcomes_append createGuessIds_append butlast_append)
    with created assms(3,4) show ?thesis by auto
  qed
qed

lemma gameFacts_cong:
  "gameID m' = gameID m \<Longrightarrow> gridRow m' = gridRow m \<Longrightarrow> gameFacts m' new gs = gameFacts m new gs"
  by (simp add: gameFacts_def)

lemma gameFacts_score_call:
  "gameFacts m new gs \<Longrightarrow> gameFacts m (new @ [GetTotalScoreCall ok]) gs"
  by (simp add: gameFacts_def createGameOutcomes_append createGuessIds_append)

lemma gameInv_same:
  assumes "gameInv s0 (m, s)" "gameID m' = gameID m" "gridRow m' = gridRow m"
  shows "gameInv s0 (m', s)"
  using assms by (auto simp: gameInv_def gameFacts_cong [of m' m])

lemma doAcceptChar_game:
  "doAcceptChar ch m = Inr m' \<Longrightarrow> gameID m' = gameID m \<and> gridRow m' = gridRow m"
  by (auto simp: doAcceptChar_def split: if_splits)

lemma gameInv_doAcceptGuess:
  assumes "gameInv s0 (m, s)" "\<not> gameOver m"
    and "doAcceptGuess IsWord e (m, s) = Inr ((m', s'), c)"
  shows "gameInv s0 (m', s')"
proof (cases "gridCol m \<noteq> int numChars \<or> \<not> (0 \<le> gridRow m \<and> gridRow m < int numGuesses) \<or>
    \<not> IsWord (grid m ! nat (gridRow m))")
  case True
  with assms(2,3) have "s' = s \<and> gameID m' = gameID m \<and> gridRow m' = gridRow m"
    by (auto simp: doAcceptGuess_def setStatus_def Let_def split: if_splits)
  with assms(1) show ?thesis using gameInv_same by blast
next
  case False
  let ?guess = "grid m ! nat (gridRow m)"
  obtain err m1 s1 where sg: "saveGuess e ?guess (m, s) = (err, m1, s1)"
    by (cases "saveGuess e ?guess (m, s)")
  obtain success ks where
    fo: "fold (acceptKey (answer m1) ?guess) [0..<numChars] (True, keyStates m1) = (success, ks)"
    by (cases "fold (acceptKey (answer m1) ?guess) [0..<numChars] (True, keyStates m1)")
  let ?m2 = "m1\<lparr>keyStates := ks, gridRow := gridRow m1 + 1, gridCol := 0\<rparr>"
  have eq: "doAcceptGuess IsWord e (m, s) =
     (if success then Inr (doWin e (?m2, s1))
      else if gridRow m1 + 1 = int numGuesses then Inr (doLoss e (?m2, s1))
      else Inr ((?m2, s1), None))"
    using assms(2) False sg fo by (intro doAcceptGuess_accepted [where err = err]) simp_all
  from assms(1) obtain new gs where c: "calls s = calls s0 @ new" and g: "games s = games s0 @ gs"
    and f: "gameFacts m new gs" by (auto simp: gameInv_def)
  from gameFacts_saveGuess [OF f sg c g] obtain new' gs'
    where c1: "calls s1 = calls s0 @ new'" and g1: "games s1 = games s0 @ gs'"
      and f1: "gameFacts (m1\<lparr>gridRow := gridRow m1 + 1\<rparr>) new' gs'" by blast
  have f2: "gameFacts ?m2 new' gs'"
    using f1 gameFacts_cong [of ?m2 "m1\<lparr>gridRow := gridRow m1 + 1\<rparr>" new' gs'] by simp
  show ?thesis
  proof (cases "success \<or> gridRow m1 + 1 = int numGuesses")
    case True
    then have "games s' = games s1 \<and> calls s' = calls s1 @ [GetTotalScoreCall (getTotalScoreOk e)] \<and>
        gameID m' = gameID ?m2 \<and> gridRow m' = gridRow ?m2"
      using assms(3) eq by (auto simp: doWin_eq doLoss_eq split: if_splits)
    moreover have "gameFacts m' (new' @ [GetTotalScoreCall (getTotalScoreOk e)]) gs'"
      using calculation gameFacts_score_call [OF f2] gameFacts_cong [of m' ?m2] by simp
    ultimately show ?thesis
      using c1 g1 by (auto simp: gameInv_def)
  next
    case False
    then have "m' = ?m2 \<and> s' = s1" using assms(3) eq by simp
    with f2 c1 g1 show ?thesis by (auto simp: gameInv_def)
  qed
qed

lemma gameInv_Update:
  assumes "gameInv s0 (m, s)" "\<not> isRestart ev m"
    and "Update IsWord e ev (m, s) = Inr ((m', s'), c)"
  shows "gameInv s0 (m', s')"
proof (cases ev)
  case msgResetStatus
  with assms(3) have "s' = s \<and> gameID m' = gameID m \<and> gridRow m' = gridRow m"
    by (auto simp: Update_msgResetStatus)
  with assms(1) show ?thesis using gameInv_same by blast
next
  case (KeyMsg k runes)
  have inv0: "gameInv s0 (resetStatus m, s)"
    using assms(1) by (rule gameInv_same) (simp_all add: resetStatus_def)
  show ?thesis
  proof (cases k)
    case KeyCtrlC
    with KeyMsg assms(3) inv0 show ?thesis by (auto simp: Update_def)
  next
    case KeyCtrlR
    with KeyMsg assms(2) show ?thesis by (simp add: isRestart_def)
  next
    case KeyBackspace
    with KeyMsg assms(3) have "s' = s \<and> gameID m' = gameID m \<and> gridRow m' = gridRow m"
      by (auto simp: Update_def doDeleteChar_def resetStatus_def Let_def split: if_splits)
    with assms(1) show ?thesis using gameInv_same by blast
  next
    case KeyEnter
    with KeyMsg assms(2) have ngo: "\<not> gameOver (resetStatus m)"
      by (simp add: isRestart_def resetStatus_def)
    with KeyMsg KeyEnter assms(3)
    have "doAcceptGuess IsWord e (resetStatus m, s) = Inr ((m', s'), c)"
      by (simp add: Update_def)
    from gameInv_doAcceptGuess [OF inv0 ngo this] show ?thesis .
  next
    case KeyRunes
    show ?thesis
    proof (cases "length runes = 1")
      case True
      with KeyMsg KeyRunes assms(3) obtain m2
        where "doAcceptChar (runes ! 0) (resetStatus m) = Inr m2" "m' = m2" "s' = s"
        by (auto simp: Update_def split: sum.splits)
      with doAcceptChar_game [of "runes ! 0" "resetStatus m" m2]
      have "s' = s \<and> gameID m' = gameID m \<and> gridRow m' = gridRow m"
        by (simp add: resetStatus_def)
      with assms(1) show ?thesis using gameInv_same by blast
    next
      case False
      with KeyMsg KeyRunes assms(3) inv0 show ?thesis by (auto simp: Update_def)
    qed
  next
    case KeyOther
    with KeyMsg assms(3) inv0 show ?thesis by (auto simp: Update_def)
  qed
next
  case (WindowSizeMsg w h)
  with assms(3) have "s' = s \<and> gameID m' = gameID m \<and> gridRow m' = gridRow m"
    by (auto simp: Update_def doResize_def)
  with assms(1) show ?thesis using gameInv_same by blast
next
  case OtherMsg
  with assms(1,3) show ?thesis by (auto simp: Update_def)
qed

lemma gameInv_runSession:
  assumes "gameInv s0 ms" "restartFree IsWord steps ms" "runSession IsWord steps ms = Inr ms'"
  shows "gameInv s0 ms'"
  using assms
proof (induction steps arbitrary: ms)
  case Nil
  then show ?case by simp
next
  case (Cons step steps)
  obtain m s where ms: "ms = (m, s)" by (cases ms)
  from Cons.prems(3) ms obtain m1 s1 c
    where u: "Update IsWord (fst step) (snd step) (m, s) = Inr ((m1, s1), c)"
      and r: "runSession IsWord steps (m1, s1) = Inr ms'"
    by (auto split: sum.splits)
  from Cons.prems(2) ms u have nr: "\<not> isRestart (snd step) m"
    and rf: "restartFree IsWord steps (m1, s1)" by simp_all
  from gameInv_Update [OF _ nr u] Cons.prems(1) ms have "gameInv s0 (m1, s1)" by simp
  from Cons.IH [OF this rf r] show ?case .
qed

lemma retry_calls:
  "map_sum id (calls \<circ> snd)
     (runSession anyWord (typeWord False ''SLATE'' @ typeWord False ''CRATE'') (freshGame ''CRANE'')) =
   Inr [GetTotalScoreCall True, CreateGameCall ''CRANE'' False, CreateGameCall ''CRANE'' False]"
  by (simp add: run_defs)

lemma retry_restartFree:
  "restartFree anyWord (typeWord False ''SLATE'' @ typeWord False ''CRATE'') (freshGame ''CRANE'')"
  by (simp add: run_defs)

lemma retry_then_create_run:
  "\<exists>m' s'. runSession anyWord (typeWord False ''SLATE'' @ typeWord True ''CRATE'') (freshGame ''CRANE'') =
       Inr (m', s') \<and>
     calls s' = [GetTotalScoreCall True, CreateGameCall ''CRANE'' False,
                 CreateGameCall ''CRANE'' True, CreateGuessCall 1 ''CRATE'' True] \<and>
     games s' = [Game 1 ''CRANE''] \<and> gameID m' = 1 \<and> gridRow m' = 2"
  by (simp add: run_defs)

lemma retry_then_create_restartFree:
  "restartFree anyWord (typeWord False ''SLATE'' @ typeWord True ''CRATE'') (freshGame ''CRANE'')"
  by (simp add: run_defs)

text \<open>
  Claim C8, as amended. In a game instance (the messages after a restart, up to the next
  one) \<^verbatim>\<open>CreateGame\<close> succeeds at most once and is not called again once it has
  succeeded; it is called at most once per accepted guess, so not at all while no guess
  has been accepted, and then no game row is written; the game rows written by the
  instance are none while no call has succeeded and exactly one afterwards, whose id is
  the session's game identity; and every \<^verbatim>\<open>CreateGuess\<close> call of the instance carries the
  id of that one row. The row of the cursor counts the accepted guesses of the instance.
\<close>

theorem CreateGame_lazy_once:
  assumes "gameID m = 0" "gridRow m = 0"
    and "restartFree IsWord steps (m, s)"
    and "runSession IsWord steps (m, s) = Inr (m', s')"
  shows "\<exists>new gs. calls s' = calls s @ new \<and> games s' = games s @ gs \<and>
     True \<notin> set (butlast (createGameOutcomes new)) \<and>
     int (length (createGameOutcomes new)) \<le> gridRow m' \<and>
     (gridRow m' = 0 \<longrightarrow> createGameOutcomes new = [] \<and> gs = []) \<and>
     (if True \<in> set (createGameOutcomes new)
      then map game_id gs = [gameID m'] \<and> gameID m' \<noteq> 0
      else gs = [] \<and> gameID m' = 0) \<and>
     list_all (\<lambda>gid. map game_id gs = [gid]) (createGuessIds new)"
proof -
  have "gameInv s (m, s)"
    using assms(1,2) by (simp add: gameInv_def gameFacts_def)
  from gameInv_runSession [OF this assms(3,4)]
  obtain new gs where c: "calls s' = calls s @ new" and g: "games s' = games s @ gs"
    and f: "gameFacts m' new gs" by (auto simp: gameInv_def)
  have last_in: "xs \<noteq> [] \<Longrightarrow> last xs \<Longrightarrow> True \<in> set xs" for xs :: "bool list"
    using last_in_set [of xs] by auto
  have "True \<notin> set (butlast (createGameOutcomes new)) \<and>
     int (length (createGameOutcomes new)) \<le> gridRow m' \<and>
     (gridRow m' = 0 \<longrightarrow> createGameOutcomes new = [] \<and> gs = []) \<and>
     (if True \<in> set (createGameOutcomes new)
      then map game_id gs = [gameID m'] \<and> gameID m' \<noteq> 0
      else gs = [] \<and> gameID m' = 0) \<and>
     list_all (\<lambda>gid. map game_id gs = [gid]) (createGuessIds new)"
    using f last_in [of "createGameOutcomes new"]
    by (cases "gameID m' = 0") (auto simp: gameFacts_def list_all_iff)
  with c g show ?thesis by blast
qed

theorem CreateGame_lazy_once_witness:
  "gameID (fst (freshGame ''CRANE'')) = 0 \<and> gridRow (fst (freshGame ''CRANE'')) = 0 \<and>
   restartFree anyWord (typeWord False ''SLATE'' @ typeWord True ''CRATE'') (freshGame ''CRANE'') \<and>
   (\<exists>m' s' new gs.
      runSession anyWord (typeWord False ''SLATE'' @ typeWord True ''CRATE'') (freshGame ''CRANE'') =
        Inr (m', s') \<and>
      calls s' = calls (snd (freshGame ''CRANE'')) @ new \<and>
      games s' = games (snd (freshGame ''CRANE'')) @ gs \<and>
      createGameOutcomes new = [False, True] \<and>
      True \<notin> set (butlast (createGameOutcomes new)) \<and>
      map game_id gs = [gameID m'] \<and> gridRow m' = 2)"
proof -
  let ?steps = "typeWord False ''SLATE'' @ typeWord True ''CRATE''"
  let ?m = "fst (freshGame ''CRANE'')" and ?s = "snd (freshGame ''CRANE'')"
  have h1: "gameID ?m = 0" and h2: "gridRow ?m = 0"
    by (simp_all add: freshGame_eq newModel_def)
  have h3: "restartFree anyWord ?steps (?m, ?s)"
    using retry_then_create_restartFree by simp
  from retry_then_create_run obtain m' s'
    where run: "runSession anyWord ?steps (?m, ?s) = Inr (m', s')"
      and cs: "calls s' = [GetTotalScoreCall True, CreateGameCall ''CRANE'' False,
                 CreateGameCall ''CRANE'' True, CreateGuessCall 1 ''CRATE'' True]"
      and row: "gridRow m' = 2"
    by auto
  from CreateGame_lazy_once [OF h1 h2 h3 run] obtain new gs
    where c: "calls s' = calls ?s @ new" and g: "games s' = games ?s @ gs"
      and b: "True \<notin> set (butlast (createGameOutcomes new))"
      and i: "if True \<in> set (createGameOutcomes new)
              then map game_id gs = [gameID m'] \<and> gameID m' \<noteq> 0
              else gs = [] \<and> gameID m' = 0"
    by blast
  have "calls ?s = [GetTotalScoreCall True]" by (simp add: freshGame_eq emptyStore_def)
  with c cs have new: "new = [CreateGameCall ''CRANE'' False,
                 CreateGameCall ''CRANE'' True, CreateGuessCall 1 ''CRATE'' True]" by simp
  then have o: "createGameOutcomes new = [False, True]" by simp
  with i have "map game_id gs = [gameID m']" by simp
  with run c g b o row h1 h2 h3 show ?thesis by auto
qed

text \<open>
  The claim as it is stated fails when \<^verbatim>\<open>CreateGame\<close> fails: the game identity stays
  unset, and the next accepted guess of the same game calls \<^verbatim>\<open>CreateGame\<close> again.
\<close>

theorem CreateGame_retry_counterexample:
  "gameID (fst (freshGame ''CRANE'')) = 0 \<and>
   restartFree anyWord (typeWord False ''SLATE'' @ typeWord False ''CRATE'') (freshGame ''CRANE'') \<and>
   map_sum id (calls \<circ> snd)
     (runSession anyWord (typeWord False ''SLATE'' @ typeWord False ''CRATE'') (freshGame ''CRANE'')) =
   Inr [GetTotalScoreCall True, CreateGameCall ''CRANE'' False, CreateGameCall ''CRANE'' False]"
  using retry_calls retry_restartFree by (simp add: freshGame_eq newModel_def)

section \<open>A session keeps the ledger well-formed\<close>

text \<open>
  A session that starts on a well-formed ledger with referential integrity leaves such
  a ledger after every sequence of messages: it writes a guess only to the game row it
  has created itself, and none after the guess that equals the answer.
\<close>

lemma fold_max_upper: "i \<in> set ids \<Longrightarrow> (i::int) \<le> fold max ids a"
proof (induction ids arbitrary: a)
  case Nil
  then show ?case by simp
next
  case (Cons j ids)
  show ?case
  proof (cases "i \<in> set ids")
    case True
    then show ?thesis using Cons.IH by simp
  next
    case False
    with Cons.prems have "i = j" by simp
    then have "i \<le> max j a" by simp
    also have "\<dots> \<le> fold max ids (max j a)" by (rule fold_max_ge)
    finally show ?thesis by simp
  qed
qed

lemma nextId_fresh: "nextId ids \<notin> set ids"
proof
  assume "nextId ids \<in> set ids"
  then have "nextId ids \<le> fold max ids 0" by (rule fold_max_upper)
  then show False by (simp add: nextId_def)
qed

lemma guessesOf_cong:
  "guesses t = guesses s \<Longrightarrow> guessesOf t g = guessesOf s g"
  by (simp add: guessesOf_def)

lemma ledgerOk_cong:
  "games t = games s \<Longrightarrow> guesses t = guesses s \<Longrightarrow> ledgerOk t = ledgerOk s"
proof -
  assume g: "games t = games s" and q: "guesses t = guesses s"
  have "answerOnlyLast t = answerOnlyLast s"
    by (rule ext) (simp add: answerOnlyLast_def guessesOf_def q)
  then show ?thesis
    by (simp add: ledgerOk_def ledgerWellFormed_def refIntegrity_def g q)
qed

lemma gameLink_cong:
  "games t = games s \<Longrightarrow> guesses t = guesses s \<Longrightarrow> gameID m' = gameID m \<Longrightarrow>
   answer m' = answer m \<Longrightarrow> gameOver m' = gameOver m \<Longrightarrow> gameLink m' t = gameLink m s"
  by (simp add: gameLink_def guessesOf_def)

lemma ledgerOk_new_game:
  assumes "ledgerOk s" "games t = games s @ [g]" "guesses t = guesses s"
    and "game_id g = nextId (map game_id (games s))"
  shows "ledgerOk t \<and> guessesOf t g = []"
proof -
  have fresh: "game_id g \<notin> set (map game_id (games s))"
    using assms(4) nextId_fresh [of "map game_id (games s)"] by simp
  from assms(1) have ri: "\<forall>r\<in>set (guesses s). guess_game_id r \<in> set (map game_id (games s))"
    by (simp add: ledgerOk_def refIntegrity_def list_all_iff)
  have "\<forall>r\<in>set (guesses s). guess_game_id r \<noteq> game_id g"
    using ri fresh by metis
  then have none: "guessesOf t g = []"
    by (simp add: guessesOf_def filter_empty_conv assms(3))
  have "distinct (map game_id (games t))"
    using assms(1,2) fresh by (simp add: ledgerOk_def ledgerWellFormed_def)
  moreover have "\<forall>h\<in>set (games t). answerOnlyLast t h"
    using assms(1,2,3) none
    by (auto simp: ledgerOk_def ledgerWellFormed_def list_all_iff answerOnlyLast_def guessesOf_def)
  moreover have "refIntegrity t"
    using ri assms(2,3) by (auto simp: refIntegrity_def list_all_iff)
  ultimately show ?thesis
    using none by (simp add: ledgerOk_def ledgerWellFormed_def list_all_iff)
qed

lemma ledgerOk_new_guess:
  assumes "ledgerOk s" "games t = games s" "guesses t = guesses s @ [r]"
    and "g \<in> set (games s)" "guess_game_id r = game_id g"
    and "game_answer g \<notin> set (guessesOf s g)"
  shows "ledgerOk t \<and> guessesOf t g = guessesOf s g @ [guess_guess r]"
proof -
  have mine: "guessesOf t g = guessesOf s g @ [guess_guess r]"
    using assms(3,5) by (simp add: guessesOf_def)
  from assms(1) have dist: "distinct (map game_id (games s))"
    by (simp add: ledgerOk_def ledgerWellFormed_def)
  have other: "guessesOf t h = guessesOf s h" if "h \<in> set (games s)" "h \<noteq> g" for h
  proof -
    from dist that assms(4) have "game_id h \<noteq> game_id g"
      by (meson distinct_map inj_on_def)
    then show ?thesis using assms(3,5) by (simp add: guessesOf_def)
  qed
  have "\<forall>h\<in>set (games t). answerOnlyLast t h"
  proof
    fix h assume h: "h \<in> set (games t)"
    show "answerOnlyLast t h"
    proof (cases "h = g")
      case True
      with mine assms(6) show ?thesis by (simp add: answerOnlyLast_def)
    next
      case False
      with h assms(1,2) other [of h] show ?thesis
        by (simp add: ledgerOk_def ledgerWellFormed_def list_all_iff answerOnlyLast_def)
    qed
  qed
  moreover have "refIntegrity t"
    using assms(1,2,3,4,5) by (auto simp: ledgerOk_def refIntegrity_def list_all_iff)
  ultimately show ?thesis
    using mine dist assms(2) by (simp add: ledgerOk_def ledgerWellFormed_def list_all_iff)
qed

lemma saveGuess_tables:
  assumes "saveGuess e w (m, s) = (err, m1, s1)"
  shows "(gameID m \<noteq> 0 \<and> m1 = m \<and> games s1 = games s \<and>
            (guesses s1 = guesses s \<or>
             (\<exists>r. guesses s1 = guesses s @ [r] \<and> guess_game_id r = gameID m \<and> guess_guess r = w))) \<or>
         (gameID m = 0 \<and> m1 = m \<and> games s1 = games s \<and> guesses s1 = guesses s) \<or>
         (gameID m = 0 \<and>
            (\<exists>g. game_id g = nextId (map game_id (games s)) \<and> game_answer g = answer m \<and>
               m1 = m\<lparr>gameID := game_id g\<rparr> \<and> games s1 = games s @ [g] \<and>
               (guesses s1 = guesses s \<or>
                (\<exists>r. guesses s1 = guesses s @ [r] \<and> guess_game_id r = game_id g \<and>
                   guess_guess r = w))))"
proof (cases "gameID m = 0")
  case False
  with assms show ?thesis
    by (cases "createGuessOk e") (auto simp: saveGuess_def CreateGuess_def Let_def)
next
  case True
  show ?thesis
  proof (cases "createGameOk e")
    case False
    with True assms show ?thesis by (auto simp: saveGuess_def CreateGame_def)
  next
    case ok: True
    let ?g = "Game (nextId (map game_id (games s))) (answer m)"
    from True ok assms have "m1 = m\<lparr>gameID := game_id ?g\<rparr> \<and> games s1 = games s @ [?g] \<and>
       (guesses s1 = guesses s \<or>
         (\<exists>r. guesses s1 = guesses s @ [r] \<and> guess_game_id r = game_id ?g \<and> guess_guess r = w))"
      by (cases "createGuessOk e") (auto simp: saveGuess_def CreateGame_def CreateGuess_def Let_def)
    moreover have "game_id ?g = nextId (map game_id (games s)) \<and> game_answer ?g = answer m"
      by simp
    ultimately show ?thesis using True by blast
  qed
qed

lemma ledger_guess_step:
  assumes ok: "ledgerOk s" and g: "g \<in> set (games s)" and nin: "game_answer g \<notin> set (guessesOf s g)"
    and t: "games t = games s"
      "guesses t = guesses s \<or> (\<exists>r. guesses t = guesses s @ [r] \<and> guess_game_id r = game_id g \<and> guess_guess r = w)"
  shows "ledgerOk t \<and> g \<in> set (games t) \<and> (w \<noteq> game_answer g \<longrightarrow> game_answer g \<notin> set (guessesOf t g))"
proof (cases "guesses t = guesses s")
  case True
  with ok t(1) have "ledgerOk t" by (simp add: ledgerOk_cong [of t s])
  moreover have "guessesOf t g = guessesOf s g" using True by (rule guessesOf_cong)
  ultimately show ?thesis using g t(1) nin by simp
next
  case False
  with t(2) obtain r where r: "guesses t = guesses s @ [r]" "guess_game_id r = game_id g"
    "guess_guess r = w" by blast
  from ledgerOk_new_guess [OF ok t(1) r(1) g r(2) nin] r(3) g t(1) nin show ?thesis by simp
qed

lemma ledger_saveGuess:
  assumes "ledgerOk s" "gameLink m s" "\<not> gameOver m"
    and "saveGuess e w (m, s) = (err, m1, s1)"
  shows "ledgerOk s1 \<and> answer m1 = answer m \<and>
         (gameID m1 = 0 \<or>
          (\<exists>g\<in>set (games s1). game_id g = gameID m1 \<and> game_answer g = answer m1 \<and>
             (w \<noteq> answer m1 \<longrightarrow> answer m1 \<notin> set (guessesOf s1 g))))"
proof -
  from saveGuess_tables [OF assms(4)] consider
    (reuse) "gameID m \<noteq> 0" "m1 = m" "games s1 = games s"
      "guesses s1 = guesses s \<or>
       (\<exists>r. guesses s1 = guesses s @ [r] \<and> guess_game_id r = gameID m \<and> guess_guess r = w)"
  | (failed) "gameID m = 0" "m1 = m" "games s1 = games s" "guesses s1 = guesses s"
  | (created) g where "gameID m = 0" "game_id g = nextId (map game_id (games s))"
      "game_answer g = answer m" "m1 = m\<lparr>gameID := game_id g\<rparr>" "games s1 = games s @ [g]"
      "guesses s1 = guesses s \<or>
       (\<exists>r. guesses s1 = guesses s @ [r] \<and> guess_game_id r = game_id g \<and> guess_guess r = w)"
    by blast
  then show ?thesis
  proof cases
    case reuse
    from assms(2,3) reuse(1) obtain g where g: "g \<in> set (games s)" "game_id g = gameID m"
      "game_answer g = answer m" "answer m \<notin> set (guessesOf s g)"
      by (auto simp: gameLink_def)
    from ledger_guess_step [OF assms(1) g(1), of s1 w] g reuse
    show ?thesis by auto
  next
    case failed
    with assms(1) show ?thesis by (simp add: ledgerOk_cong [of s1 s])
  next
    case created
    let ?mid = "s\<lparr>games := games s @ [g]\<rparr>"
    from ledgerOk_new_game [OF assms(1), of ?mid g] created(2)
    have mid: "ledgerOk ?mid" "guessesOf ?mid g = []" by simp_all
    have gin: "g \<in> set (games ?mid)" by simp
    have nin: "game_answer g \<notin> set (guessesOf ?mid g)" using mid(2) by simp
    from ledger_guess_step [OF mid(1) gin nin, of s1 w] created
    show ?thesis by auto
  qed
qed

lemma ledger_same:
  assumes "ledgerOk s" "gameLink m s" "gameID m' = gameID m" "answer m' = answer m"
    "gameOver m' = gameOver m"
  shows "ledgerOk s \<and> gameLink m' s"
  using assms gameLink_cong [of s s m' m] by simp

lemma ledger_doRestart:
  assumes "ledgerOk s"
  shows "ledgerOk (snd (doRestart e (m, s))) \<and> gameLink (fst (doRestart e (m, s))) (snd (doRestart e (m, s)))"
  using assms ledgerOk_cong [of "snd (doRestart e (m, s))" s]
  by (simp add: doRestart_eq gameLink_def)

lemma doAcceptChar_link:
  "doAcceptChar ch m = Inr m' \<Longrightarrow>
     gameID m' = gameID m \<and> answer m' = answer m \<and> gameOver m' = gameOver m"
  by (auto simp: doAcceptChar_def split: if_splits)

lemma ledger_doAcceptGuess:
  assumes "ledgerOk s" "gameLink m s" "arraysOk m" "\<not> gameOver m"
    and "doAcceptGuess IsWord e (m, s) = Inr ((m', s'), c)"
  shows "ledgerOk s' \<and> gameLink m' s'"
proof (cases "gridCol m \<noteq> int numChars \<or> \<not> (0 \<le> gridRow m \<and> gridRow m < int numGuesses) \<or>
    \<not> IsWord (grid m ! nat (gridRow m))")
  case True
  with assms(4,5) have "s' = s \<and> gameID m' = gameID m \<and> answer m' = answer m \<and>
      gameOver m' = gameOver m"
    by (auto simp: doAcceptGuess_def setStatus_def Let_def split: if_splits)
  with assms(1,2) ledger_same [of s m m'] show ?thesis by simp
next
  case False
  let ?guess = "grid m ! nat (gridRow m)"
  obtain err m1 s1 where sg: "saveGuess e ?guess (m, s) = (err, m1, s1)"
    by (cases "saveGuess e ?guess (m, s)")
  obtain success ks where
    fo: "fold (acceptKey (answer m1) ?guess) [0..<numChars] (True, keyStates m1) = (success, ks)"
    by (cases "fold (acceptKey (answer m1) ?guess) [0..<numChars] (True, keyStates m1)")
  let ?m2 = "m1\<lparr>keyStates := ks, gridRow := gridRow m1 + 1, gridCol := 0\<rparr>"
  have eq: "doAcceptGuess IsWord e (m, s) =
     (if success then Inr (doWin e (?m2, s1))
      else if gridRow m1 + 1 = int numGuesses then Inr (doLoss e (?m2, s1))
      else Inr ((?m2, s1), None))"
    using assms(4) False sg fo by (intro doAcceptGuess_accepted [where err = err]) simp_all
  from ledger_saveGuess [OF assms(1,2,4) sg]
  have ok1: "ledgerOk s1" and a1: "answer m1 = answer m"
    and l1: "gameID m1 = 0 \<or>
          (\<exists>g\<in>set (games s1). game_id g = gameID m1 \<and> game_answer g = answer m1 \<and>
             (?guess \<noteq> answer m1 \<longrightarrow> answer m1 \<notin> set (guessesOf s1 g)))"
    by blast+
  have lg: "length ?guess = numChars"
    using assms(3) False by (auto simp: arraysOk_def list_all_length nat_less_iff)
  have la: "length (answer m1) = numChars" using assms(3) a1 by (simp add: arraysOk_def)
  have "success = (\<forall>i<numChars. ?guess ! i = answer m1 ! i)"
    using fold_acceptKey_success [of "answer m1" ?guess numChars True "keyStates m1"] fo by simp
  then have success: "success = (?guess = answer m1)"
    using all_nth_eq [OF lg la] by simp
  show ?thesis
  proof (cases "success \<or> gridRow m1 + 1 = int numGuesses")
    case True
    then have t: "games s' = games s1" "guesses s' = guesses s1" "gameID m' = gameID m1"
      "answer m' = answer m1" "gameOver m'"
      using assms(5) eq by (auto simp: doWin_eq doLoss_eq split: if_splits)
    have "gameLink m' s'"
      using l1 t by (auto simp: gameLink_def guessesOf_def)
    with ok1 t show ?thesis by (simp add: ledgerOk_cong [of s' s1])
  next
    case False
    then have t: "m' = ?m2" "s' = s1" using assms(5) eq by simp_all
    from False success have "?guess \<noteq> answer m1" by simp
    with l1 have "gameLink ?m2 s1" by (auto simp: gameLink_def)
    with ok1 t show ?thesis by simp
  qed
qed

lemma ledger_Update:
  assumes "ledgerInv (m, s)" and "Update IsWord e ev (m, s) = Inr ((m', s'), c)"
  shows "ledgerOk s' \<and> gameLink m' s'"
proof -
  from assms(1) have ok: "ledgerOk s" and link: "gameLink m s" and ar: "arraysOk m"
    by (simp_all add: ledgerInv_def sessionInv_def)
  have link0: "gameLink (resetStatus m) s"
    using link gameLink_cong [of s s "resetStatus m" m] by (simp add: resetStatus_def)
  have ar0: "arraysOk (resetStatus m)" using ar by (simp add: arraysOk_def resetStatus_def)
  show ?thesis
  proof (cases ev)
    case msgResetStatus
    with assms(2) have "s' = s \<and> gameID m' = gameID m \<and> answer m' = answer m \<and>
        gameOver m' = gameOver m"
      by (auto simp: Update_msgResetStatus)
    with ok link ledger_same [of s m m'] show ?thesis by simp
  next
    case (KeyMsg k runes)
    show ?thesis
    proof (cases k)
      case KeyCtrlC
      with KeyMsg assms(2) ok link0 show ?thesis by (auto simp: Update_def)
    next
      case KeyCtrlR
      with KeyMsg assms(2) ledger_doRestart [OF ok, of e "resetStatus m"] show ?thesis
        by (auto simp: Update_def)
    next
      case KeyBackspace
      with KeyMsg assms(2) have "s' = s \<and> gameID m' = gameID m \<and> answer m' = answer m \<and>
          gameOver m' = gameOver m"
        by (auto simp: Update_def doDeleteChar_def resetStatus_def Let_def split: if_splits)
      with ok link ledger_same [of s m m'] show ?thesis by simp
    next
      case KeyEnter
      show ?thesis
      proof (cases "gameOver (resetStatus m)")
        case True
        with KeyMsg KeyEnter assms(2) ledger_doRestart [OF ok, of e "resetStatus m"] show ?thesis
          by (auto simp: Update_def)
      next
        case False
        with KeyMsg KeyEnter assms(2)
        have "doAcceptGuess IsWord e (resetStatus m, s) = Inr ((m', s'), c)"
          by (simp add: Update_def)
        from ledger_doAcceptGuess [OF ok link0 ar0 False this] show ?thesis .
      qed
    next
      case KeyRunes
      show ?thesis
      proof (cases "length runes = 1")
        case True
        with KeyMsg KeyRunes assms(2) obtain m2
          where "doAcceptChar (runes ! 0) (resetStatus m) = Inr m2" "m' = m2" "s' = s"
          by (auto simp: Update_def split: sum.splits)
        with doAcceptChar_link [of "runes ! 0" "resetStatus m" m2]
        have "s' = s \<and> gameID m' = gameID m \<and> answer m' = answer m \<and> gameOver m' = gameOver m"
          by (simp add: resetStatus_def)
        with ok link ledger_same [of s m m'] show ?thesis by simp
      next
        case False
        with KeyMsg KeyRunes assms(2) ok link0 show ?thesis by (auto simp: Update_def)
      qed
    next
      case KeyOther
      with KeyMsg assms(2) ok link0 show ?thesis by (auto simp: Update_def)
    qed
  next
    case (WindowSizeMsg w h)
    with assms(2) have "s' = s \<and> gameID m' = gameID m \<and> answer m' = answer m \<and>
        gameOver m' = gameOver m"
      by (auto simp: Update_def doResize_def)
    with ok link ledger_same [of s m m'] show ?thesis by simp
  next
    case OtherMsg
    with assms(2) ok link show ?thesis by (auto simp: Update_def)
  qed
qed

lemma ledgerInv_runSession:
  assumes "ledgerInv ms"
  shows "\<exists>ms'. runSession IsWord steps ms = Inr ms' \<and> ledgerInv ms'"
  using assms
proof (induction steps arbitrary: ms)
  case Nil
  then show ?case by simp
next
  case (Cons step steps)
  obtain m s where ms: "ms = (m, s)" by (cases ms)
  with Cons.prems have si: "sessionInv m" by (simp add: ledgerInv_def)
  from sessionInv_Update [OF si, of IsWord "fst step" "snd step" s]
  obtain m1 s1 c where u: "Update IsWord (fst step) (snd step) (m, s) = Inr ((m1, s1), c)"
    and i: "sessionInv m1" by blast
  from ledger_Update [OF _ u] Cons.prems ms have "ledgerOk s1 \<and> gameLink m1 s1" by simp
  with i have "ledgerInv (m1, s1)" by (simp add: ledgerInv_def)
  from Cons.IH [OF this] u ms show ?case by simp
qed

lemma session_keeps_ledger_wellFormed:
  assumes "ledgerOk s"
  shows "\<exists>m' s'. runSession IsWord steps
            (Init e (newModel\<lparr>windowWidth := w, windowHeight := h\<rparr>, s)) = Inr (m', s') \<and>
          ledgerWellFormed s' \<and> refIntegrity s'"
proof -
  let ?ms = "Init e (newModel\<lparr>windowWidth := w, windowHeight := h\<rparr>, s)"
  have "sessionInv (fst ?ms)" by (rule sessionInv_start)
  moreover have "ledgerOk (snd ?ms) \<and> gameLink (fst ?ms) (snd ?ms)"
    unfolding Init_def by (rule ledger_doRestart [OF assms])
  ultimately have "ledgerInv ?ms" by (simp add: ledgerInv_def)
  from ledgerInv_runSession [OF this, of IsWord steps] show ?thesis
    by (auto simp: ledgerInv_def ledgerOk_def)
qed

section \<open>The total score on the ledgers the program writes\<close>

lemma ledgerOk_emptyStore: "ledgerOk emptyStore"
  by (simp add: ledgerOk_def ledgerWellFormed_def refIntegrity_def emptyStore_def)

lemma playSession_ledgerOk:
  assumes "ledgerOk s"
  shows "\<exists>s'. playSession IsWord p s = Inr s' \<and> ledgerOk s'"
proof -
  obtain e w h steps where p: "p = (e, w, h, steps)" by (cases p)
  from session_keeps_ledger_wellFormed [OF assms, where IsWord = IsWord and steps = steps and e = e and w = w and h = h]
  show ?thesis by (auto simp: playSession_def p ledgerOk_def)
qed

lemma playSessions_ledgerOk:
  "ledgerOk s \<Longrightarrow> \<exists>s'. playSessions IsWord plays s = Inr s' \<and> ledgerOk s'"
proof (induction plays arbitrary: s)
  case Nil
  then show ?case by simp
next
  case (Cons p plays)
  from playSession_ledgerOk [OF Cons.prems, of IsWord p]
  obtain s1 where s1: "playSession IsWord p s = Inr s1" "ledgerOk s1" by blast
  from Cons.IH [OF s1(2)] s1(1) show ?case by simp
qed

text \<open>
  Claim C1. Whatever runs of the program have written the ledger, one after another from
  the empty database, with any words drawn, any messages, any dictionary, any window
  sizes and any failures of the store, and at whatever point of the last run: no run
  panics, and on the ledger they leave the query \<^verbatim>\<open>GetTotalScore\<close> returns exactly the sum,
  over all persisted games, of the game's contribution as the specification computes it:
  with \<open>count\<close> the number of the game's guesses, \<open>100 - 10 * (count - 1)\<close> when the last
  guess of the game equals its answer, and 0 otherwise. So with \<open>N\<close> won games of
  \<open>k1, ..., kN\<close> guesses and \<open>M\<close> lost games the total is the sum of the
  \<open>100 - 10 * (ki - 1)\<close>. A result of \<^verbatim>\<open>NULL\<close> (no row at all) is read as 0, as
  \<^verbatim>\<open>updateScore\<close> reads it.
\<close>

theorem GetTotalScore_is_TotalScore:
  "\<exists>s. playSessions IsWord plays emptyStore = Inr s \<and>
       (\<exists>r. fst (GetTotalScore True s) = Inr r \<and> scoreValue r = TotalScore s)"
proof -
  from playSessions_ledgerOk [OF ledgerOk_emptyStore, of IsWord plays]
  obtain s where s: "playSessions IsWord plays emptyStore = Inr s" "ledgerOk s" by blast
  from s(2) have "ledgerWellFormed s" by (simp add: ledgerOk_def)
  from GetTotalScore_ledgerWellFormed [OF this] s(1) show ?thesis by blast
qed

lemma two_plays:
  "\<exists>s. playSessions anyWord
          [(ioWith ''CRANE'' True, 80, 24, typeWord True ''SLATE'' @ typeWord True ''CRANE''),
           (ioWith ''SPEED'' True, 80, 24, typeWord True ''SPEED''),
           (ioWith ''ABCDE'' True, 80, 24, typeWord True ''SLATE'')] emptyStore = Inr s \<and>
        games s = [Game 1 ''CRANE'', Game 2 ''SPEED'', Game 3 ''ABCDE''] \<and>
        guesses s = [Guess 1 1 ''SLATE'', Guess 2 1 ''CRANE'', Guess 3 2 ''SPEED'', Guess 4 3 ''SLATE'']"
  by (simp add: playSession_def run_defs Init_def doRestart_eq game_scores_def joinRows_def)

theorem GetTotalScore_is_TotalScore_witness:
  "\<exists>s r. playSessions anyWord
          [(ioWith ''CRANE'' True, 80, 24, typeWord True ''SLATE'' @ typeWord True ''CRANE''),
           (ioWith ''SPEED'' True, 80, 24, typeWord True ''SPEED''),
           (ioWith ''ABCDE'' True, 80, 24, typeWord True ''SLATE'')] emptyStore = Inr s \<and>
        games s = [Game 1 ''CRANE'', Game 2 ''SPEED'', Game 3 ''ABCDE''] \<and>
        guesses s = [Guess 1 1 ''SLATE'', Guess 2 1 ''CRANE'', Guess 3 2 ''SPEED'', Guess 4 3 ''SLATE''] \<and>
        fst (GetTotalScore True s) = Inr r \<and> scoreValue r = 190"
proof -
  let ?plays = "[(ioWith ''CRANE'' True, 80, 24, typeWord True ''SLATE'' @ typeWord True ''CRANE''),
           (ioWith ''SPEED'' True, 80, 24, typeWord True ''SPEED''),
           (ioWith ''ABCDE'' True, 80, 24, typeWord True ''SLATE'')]"
  from GetTotalScore_is_TotalScore [of anyWord ?plays]
  obtain s r where run: "playSessions anyWord ?plays emptyStore = Inr s"
    and q: "fst (GetTotalScore True s) = Inr r" "scoreValue r = TotalScore s" by blast
  from two_plays run have t: "games s = [Game 1 ''CRANE'', Game 2 ''SPEED'', Game 3 ''ABCDE'']"
    "guesses s = [Guess 1 1 ''SLATE'', Guess 2 1 ''CRANE'', Guess 3 2 ''SPEED'', Guess 4 3 ''SLATE'']" by auto
  then have "TotalScore s = 190"
    by (simp add: TotalScore_def gameContribution_def guessesOf_def)
  with run t q show ?thesis by auto
qed


section \<open>Sessions of the server on one database\<close>

text \<open>
  The same holds when the sessions are open at the same time: a session writes guesses
  only to its own game row, whose id no other session holds, so the steps of the other
  sessions do not disturb what links it to the ledger.
\<close>

lemma ownWrites_same:
  "games s' = games s \<Longrightarrow> guesses s' = guesses s \<Longrightarrow> gameID m' = 0 \<or> gameID m' = gameID m \<Longrightarrow>
   ownWrites m s m' s'"
  by (auto simp: ownWrites_def)

lemma ownWrites_saveGuess:
  assumes "saveGuess e w (m, s) = (err, m1, s1)"
  shows "ownWrites m s m1 s1"
  using saveGuess_tables [OF assms] by (auto simp: ownWrites_def)

lemma ownWrites_after:
  "ownWrites m s m1 s1 \<Longrightarrow> games s' = games s1 \<Longrightarrow> guesses s' = guesses s1 \<Longrightarrow>
   gameID m' = gameID m1 \<Longrightarrow> ownWrites m s m' s'"
  by (simp add: ownWrites_def)

lemma ownWrites_doAcceptGuess:
  assumes "\<not> gameOver m" and "doAcceptGuess IsWord e (m, s) = Inr ((m', s'), c)"
  shows "ownWrites m s m' s'"
proof (cases "gridCol m \<noteq> int numChars \<or> \<not> (0 \<le> gridRow m \<and> gridRow m < int numGuesses) \<or>
    \<not> IsWord (grid m ! nat (gridRow m))")
  case True
  with assms have "s' = s \<and> gameID m' = gameID m"
    by (auto simp: doAcceptGuess_def setStatus_def Let_def split: if_splits)
  then show ?thesis by (simp add: ownWrites_same)
next
  case False
  let ?guess = "grid m ! nat (gridRow m)"
  obtain err m1 s1 where sg: "saveGuess e ?guess (m, s) = (err, m1, s1)"
    by (cases "saveGuess e ?guess (m, s)")
  obtain success ks where
    fo: "fold (acceptKey (answer m1) ?guess) [0..<numChars] (True, keyStates m1) = (success, ks)"
    by (cases "fold (acceptKey (answer m1) ?guess) [0..<numChars] (True, keyStates m1)")
  let ?m2 = "m1\<lparr>keyStates := ks, gridRow := gridRow m1 + 1, gridCol := 0\<rparr>"
  have eq: "doAcceptGuess IsWord e (m, s) =
     (if success then Inr (doWin e (?m2, s1))
      else if gridRow m1 + 1 = int numGuesses then Inr (doLoss e (?m2, s1))
      else Inr ((?m2, s1), None))"
    using assms(1) False sg fo by (intro doAcceptGuess_accepted [where err = err]) simp_all
  from assms(2) eq have "games s' = games s1 \<and> guesses s' = guesses s1 \<and> gameID m' = gameID m1"
    by (auto simp: doWin_eq doLoss_eq split: if_splits)
  with ownWrites_after [OF ownWrites_saveGuess [OF sg], of s' m'] show ?thesis by simp
qed

lemma ownWrites_doRestart:
  "ownWrites m s (fst (doRestart e (m0, s))) (snd (doRestart e (m0, s)))"
  by (simp add: doRestart_eq ownWrites_def)

lemma ownWrites_Update:
  assumes "Update IsWord e ev (m, s) = Inr ((m', s'), c)"
  shows "ownWrites m s m' s'"
proof (cases ev)
  case msgResetStatus
  with assms have "s' = s \<and> gameID m' = gameID m" by (auto simp: Update_msgResetStatus)
  then show ?thesis by (simp add: ownWrites_same)
next
  case (KeyMsg k runes)
  show ?thesis
  proof (cases k)
    case KeyCtrlC
    with KeyMsg assms have "s' = s \<and> gameID m' = gameID m"
      by (auto simp: Update_def resetStatus_def)
    then show ?thesis by (simp add: ownWrites_same)
  next
    case KeyCtrlR
    with KeyMsg assms ownWrites_doRestart [of m s e "resetStatus m"] show ?thesis
      by (auto simp: Update_def)
  next
    case KeyBackspace
    with KeyMsg assms have "s' = s \<and> gameID m' = gameID m"
      by (auto simp: Update_def doDeleteChar_def resetStatus_def Let_def split: if_splits)
    then show ?thesis by (simp add: ownWrites_same)
  next
    case KeyEnter
    show ?thesis
    proof (cases "gameOver (resetStatus m)")
      case True
      with KeyMsg KeyEnter assms ownWrites_doRestart [of m s e "resetStatus m"] show ?thesis
        by (auto simp: Update_def)
    next
      case False
      with KeyMsg KeyEnter assms
      have "doAcceptGuess IsWord e (resetStatus m, s) = Inr ((m', s'), c)"
        by (simp add: Update_def)
      from ownWrites_doAcceptGuess [OF False this] show ?thesis
        by (simp add: ownWrites_def resetStatus_def)
    qed
  next
    case KeyRunes
    show ?thesis
    proof (cases "length runes = 1")
      case True
      with KeyMsg KeyRunes assms obtain m2
        where "doAcceptChar (runes ! 0) (resetStatus m) = Inr m2" "m' = m2" "s' = s"
        by (auto simp: Update_def split: sum.splits)
      with doAcceptChar_link [of "runes ! 0" "resetStatus m" m2]
      have "s' = s \<and> gameID m' = gameID m" by (simp add: resetStatus_def)
      then show ?thesis by (simp add: ownWrites_same)
    next
      case False
      with KeyMsg KeyRunes assms have "s' = s \<and> gameID m' = gameID m"
        by (auto simp: Update_def resetStatus_def)
      then show ?thesis by (simp add: ownWrites_same)
    qed
  next
    case KeyOther
    with KeyMsg assms have "s' = s \<and> gameID m' = gameID m"
      by (auto simp: Update_def resetStatus_def)
    then show ?thesis by (simp add: ownWrites_same)
  qed
next
  case (WindowSizeMsg w h)
  with assms have "s' = s \<and> gameID m' = gameID m" by (auto simp: Update_def doResize_def)
  then show ?thesis by (simp add: ownWrites_same)
next
  case OtherMsg
  with assms have "s' = s \<and> gameID m' = gameID m" by (auto simp: Update_def)
  then show ?thesis by (simp add: ownWrites_same)
qed

lemma other_session_kept:
  assumes w: "ownWrites m s m' s'" and link: "gameLink n s"
    and apart: "gameID n \<noteq> 0 \<longrightarrow> gameID n \<noteq> gameID m"
  shows "gameLink n s' \<and> (gameID n \<noteq> 0 \<longrightarrow> gameID n \<noteq> gameID m')"
proof (cases "gameID n = 0")
  case True
  then show ?thesis by (simp add: gameLink_def)
next
  case False
  let ?fresh = "nextId (map game_id (games s))"
  from False link obtain g where g: "g \<in> set (games s)" "game_id g = gameID n"
    "game_answer g = answer n" "gameOver n \<or> answer n \<notin> set (guessesOf s g)"
    by (auto simp: gameLink_def)
  from g(1,2) have "gameID n \<in> set (map game_id (games s))" by force
  with nextId_fresh [of "map game_id (games s)"] have nf: "gameID n \<noteq> ?fresh" by auto
  from w obtain gs rs where t: "games s' = games s @ gs" "guesses s' = guesses s @ rs"
    "\<forall>r\<in>set rs. guess_game_id r = gameID m \<or> guess_guess r = guess_guess r \<and> guess_game_id r = ?fresh"
    by (auto simp: ownWrites_def)
  from t(3) nf False apart g(2) have "\<forall>r\<in>set rs. guess_game_id r \<noteq> game_id g" by auto
  then have "filter (\<lambda>r. guess_game_id r = game_id g) rs = []"
    by (simp add: filter_empty_conv)
  then have same: "guessesOf s' g = guessesOf s g" by (simp add: guessesOf_def t(2))
  from g t(1) same False have "gameLink n s'" by (auto simp: gameLink_def)
  moreover from w nf False apart have "gameID n \<noteq> gameID m'" by (auto simp: ownWrites_def)
  ultimately show ?thesis by simp
qed

lemma serveInv_Connect:
  assumes "serveInv (ms, s)"
  shows "\<exists>st'. serveStep IsWord (Connect e w h) (ms, s) = Inr st' \<and> serveInv st'"
proof -
  let ?init = "newModel\<lparr>windowWidth := w, windowHeight := h\<rparr>"
  let ?m = "fst (doRestart e (?init, s))" and ?s = "snd (doRestart e (?init, s))"
  from assms have ok: "ledgerOk s" by (simp add: serveInv_def)
  have step: "serveStep IsWord (Connect e w h) (ms, s) = Inr (ms @ [?m], ?s)"
    by (simp add: Init_def split: prod.splits)
  have tabs: "games ?s = games s" "guesses ?s = guesses s" by (simp_all add: doRestart_eq)
  have id0: "gameID ?m = 0" by (simp add: doRestart_eq)
  from ledger_doRestart [OF ok, of e ?init] have new: "ledgerOk ?s" "gameLink ?m ?s" by simp_all
  have inv: "sessionInv ?m" using sessionInv_start [where e = e and w = w and h = h and s = s] by (simp add: Init_def)
  have old: "sessionInv (ms ! i) \<and> gameLink (ms ! i) ?s" if "i < length ms" for i
    using assms that gameLink_cong [OF tabs, of "ms ! i" "ms ! i"] by (simp add: serveInv_def)
  have all: "\<forall>i<length (ms @ [?m]). sessionInv ((ms @ [?m]) ! i) \<and> gameLink ((ms @ [?m]) ! i) ?s"
    using old inv new(2) by (auto simp: nth_append less_Suc_eq)
  have apart: "\<forall>i<length (ms @ [?m]). \<forall>j<length (ms @ [?m]).
         i \<noteq> j \<longrightarrow> gameID ((ms @ [?m]) ! i) \<noteq> 0 \<longrightarrow>
           gameID ((ms @ [?m]) ! i) \<noteq> gameID ((ms @ [?m]) ! j)"
    using assms id0 by (auto simp: serveInv_def nth_append less_Suc_eq)
  from new(1) all apart have "serveInv (ms @ [?m], ?s)" by (simp add: serveInv_def)
  with step show ?thesis by blast
qed

lemma serveInv_Deliver:
  assumes "serveInv (ms, s)"
  shows "\<exists>st'. serveStep IsWord (Deliver k e ev) (ms, s) = Inr st' \<and> serveInv st'"
proof (cases "k < length ms")
  case False
  with assms show ?thesis by simp
next
  case True
  let ?m = "ms ! k"
  from assms True have si: "sessionInv ?m" and link: "gameLink ?m s" and ok: "ledgerOk s"
    by (simp_all add: serveInv_def)
  from sessionInv_Update [OF si, of IsWord e ev s]
  obtain m' s' c where u: "Update IsWord e ev (?m, s) = Inr ((m', s'), c)"
    and i: "sessionInv m'" by blast
  from si ok link have "ledgerInv (?m, s)" by (simp add: ledgerInv_def)
  from ledger_Update [OF this u] have new: "ledgerOk s'" "gameLink m' s'" by simp_all
  have w: "ownWrites ?m s m' s'" by (rule ownWrites_Update [OF u])
  have step: "serveStep IsWord (Deliver k e ev) (ms, s) = Inr (ms[k := m'], s')"
    using True u by simp
  have other: "gameLink (ms ! j) s' \<and> (gameID (ms ! j) \<noteq> 0 \<longrightarrow> gameID (ms ! j) \<noteq> gameID m')"
    if "j < length ms" "j \<noteq> k" for j
  proof (rule other_session_kept [OF w])
    from assms that show "gameLink (ms ! j) s" by (simp add: serveInv_def)
    from assms that True show "gameID (ms ! j) \<noteq> 0 \<longrightarrow> gameID (ms ! j) \<noteq> gameID ?m"
      by (simp add: serveInv_def)
  qed
  have all: "\<forall>j<length (ms[k := m']). sessionInv (ms[k := m'] ! j) \<and> gameLink (ms[k := m'] ! j) s'"
  proof (intro allI impI)
    fix j assume "j < length (ms[k := m'])"
    then have j: "j < length ms" by simp
    show "sessionInv (ms[k := m'] ! j) \<and> gameLink (ms[k := m'] ! j) s'"
    proof (cases "j = k")
      case True
      with j i new(2) show ?thesis by simp
    next
      case False
      with j other [of j] assms show ?thesis by (simp add: serveInv_def)
    qed
  qed
  have apart: "\<forall>i<length (ms[k := m']). \<forall>j<length (ms[k := m']).
      i \<noteq> j \<longrightarrow> gameID (ms[k := m'] ! i) \<noteq> 0 \<longrightarrow> gameID (ms[k := m'] ! i) \<noteq> gameID (ms[k := m'] ! j)"
  proof (intro allI impI)
    fix i j assume b: "i < length (ms[k := m'])" "j < length (ms[k := m'])" "i \<noteq> j"
      and nz: "gameID (ms[k := m'] ! i) \<noteq> 0"
    then have ij: "i < length ms" "j < length ms" by simp_all
    show "gameID (ms[k := m'] ! i) \<noteq> gameID (ms[k := m'] ! j)"
    proof (cases "i = k")
      case True
      with b(3) have jk: "j \<noteq> k" by simp
      from True nz ij have "gameID m' \<noteq> 0" by simp
      with other [OF ij(2) jk] have "gameID m' \<noteq> gameID (ms ! j)" by metis
      with True jk ij show ?thesis by simp
    next
      case ik: False
      show ?thesis
      proof (cases "j = k")
        case True
        from nz ik ij have "gameID (ms ! i) \<noteq> 0" by simp
        with other [OF ij(1) ik] True ik ij show ?thesis by simp
      next
        case False
        with ik ij b(3) nz assms show ?thesis by (simp add: serveInv_def)
      qed
    qed
  qed
  from new(1) all apart have "serveInv (ms[k := m'], s')" by (simp add: serveInv_def)
  with step show ?thesis by blast
qed

lemma serveInv_serve:
  "serveInv st \<Longrightarrow> \<exists>st'. serve IsWord evs st = Inr st' \<and> serveInv st'"
proof (induction evs arbitrary: st)
  case Nil
  then show ?case by simp
next
  case (Cons ev evs)
  obtain ms s where st: "st = (ms, s)" by (cases st)
  have "\<exists>st1. serveStep IsWord ev (ms, s) = Inr st1 \<and> serveInv st1"
  proof (cases ev)
    case (Connect e w h)
    with serveInv_Connect [of ms s IsWord e w h] Cons.prems st show ?thesis by simp
  next
    case (Deliver k e m)
    with serveInv_Deliver [of ms s IsWord k e m] Cons.prems st show ?thesis by simp
  qed
  then obtain st1 where s1: "serveStep IsWord ev st = Inr st1" "serveInv st1" using st by blast
  from Cons.IH [OF s1(2)] s1(1) show ?case by simp
qed

lemma serve_GetTotalScore:
  "\<exists>ms s. serve IsWord evs ([], emptyStore) = Inr (ms, s) \<and>
     (\<exists>r. fst (GetTotalScore True s) = Inr r \<and> scoreValue r = TotalScore s)"
proof -
  have "serveInv ([], emptyStore)" by (simp add: serveInv_def ledgerOk_emptyStore)
  from serveInv_serve [OF this, of IsWord evs]
  obtain ms s where r: "serve IsWord evs ([], emptyStore) = Inr (ms, s)" and "serveInv (ms, s)"
    by (metis surj_pair)
  then have "ledgerWellFormed s" by (simp add: serveInv_def ledgerOk_def)
  from GetTotalScore_ledgerWellFormed [OF this] r show ?thesis by blast
qed

end
